theory Spec2Isabelle
  imports Complex_Main
begin

section \<open>Evaluations extended with the two infinities\<close>

text \<open>
  The search compares network outputs with \<^verbatim>\<open>-float('inf')\<close> and
  \<^verbatim>\<open>float('inf')\<close>.  An evaluation is a real number or one of the two
  infinities; the order is the one Python's \<^verbatim>\<open><\<close>, \<^verbatim>\<open><=\<close>,
  \<^verbatim>\<open>max\<close> and \<^verbatim>\<open>min\<close> use on such floats (no NaN).
\<close>

datatype ext = MInf | Fin real | PInf

instantiation ext :: linorder
begin

fun less_eq_ext :: "ext \<Rightarrow> ext \<Rightarrow> bool" where
  "less_eq_ext MInf y = True"
| "less_eq_ext (Fin a) MInf = False"
| "less_eq_ext (Fin a) (Fin b) = (a \<le> b)"
| "less_eq_ext (Fin a) PInf = True"
| "less_eq_ext PInf MInf = False"
| "less_eq_ext PInf (Fin b) = False"
| "less_eq_ext PInf PInf = True"

definition less_ext :: "ext \<Rightarrow> ext \<Rightarrow> bool" where
  "less_ext x y = (x \<le> y \<and> \<not> y \<le> x)"

instance
proof
  fix x y z :: ext
  show "(x < y) = (x \<le> y \<and> \<not> y \<le> x)"
    by (simp add: less_ext_def)
  show "x \<le> x"
    by (cases x) simp_all
  show "x \<le> y \<Longrightarrow> y \<le> z \<Longrightarrow> x \<le> z"
    by (cases x; cases y; cases z) simp_all
  show "x \<le> y \<Longrightarrow> y \<le> x \<Longrightarrow> x = y"
    by (cases x; cases y) simp_all
  show "x \<le> y \<or> y \<le> x"
    by (cases x; cases y) auto
qed

end

section \<open>The rules engine (python-chess), taken as a parameter\<close>

datatype piece_type = PAWN | KNIGHT | BISHOP | ROOK | QUEEN | KING

text \<open>A colour is a boolean, as in python-chess: \<^verbatim>\<open>chess.WHITE = True\<close>.\<close>

definition WHITE :: bool where "WHITE = True"
definition BLACK :: bool where "BLACK = False"

record piece =
  piece_type :: piece_type
  color :: bool

text \<open>
  What the engine asks of python-chess.  A position \<open>'p\<close> holds all that the
  library's queries read (the pieces, the side to move, castling and en passant
  rights, the clocks, and the history that the repetition rules look at); a move is
  \<open>'m\<close>.  \<open>parse_fen\<close> is
  \<^verbatim>\<open>chess.Board(fen)\<close> (\<open>None\<close>: it raises ValueError), \<open>initial\<close> is
  \<^verbatim>\<open>chess.Board()\<close>, \<open>uci\<close> is \<^verbatim>\<open>str(move)\<close>, \<open>from_uci\<close> is
  \<^verbatim>\<open>chess.Move.from_uci\<close>, \<open>move_bool\<close> the truth value of a move object.
\<close>

record ('p, 'm) rules =
  parse_fen :: "string \<Rightarrow> 'p option"
  fen :: "'p \<Rightarrow> string"
  initial :: "'p"
  legal_moves :: "'p \<Rightarrow> 'm list"
  apply_move :: "'p \<Rightarrow> 'm \<Rightarrow> 'p"
  is_game_over :: "'p \<Rightarrow> bool"
  turn :: "'p \<Rightarrow> bool"
  piece_at :: "'p \<Rightarrow> nat \<Rightarrow> piece option"
  result :: "'p \<Rightarrow> string"
  uci :: "'m \<Rightarrow> string"
  from_uci :: "string \<Rightarrow> 'm option"
  move_bool :: "'m \<Rightarrow> bool"

datatype error = ValueError | IndexError | TypeError | OSError

text \<open>
  A board object: the current position and the stack that \<^verbatim>\<open>push\<close> fills and
  \<^verbatim>\<open>pop\<close> empties (the move played and the position it was played in).
  \<^verbatim>\<open>pop\<close> on an empty stack raises IndexError.
\<close>

record ('p, 'm) board =
  position :: 'p
  stack :: "('m \<times> 'p) list"

definition new_board :: "'p \<Rightarrow> ('p, 'm) board" where
  "new_board p = \<lparr>position = p, stack = []\<rparr>"

definition push :: "('p, 'm) rules \<Rightarrow> ('p, 'm) board \<Rightarrow> 'm \<Rightarrow> ('p, 'm) board" where
  "push R b m = \<lparr>position = apply_move R (position b) m, stack = (m, position b) # stack b\<rparr>"

definition pop :: "('p, 'm) board \<Rightarrow> error + ('p, 'm) board" where
  "pop b = (case stack b of
              [] \<Rightarrow> Inl IndexError
            | (m, p) # rest \<Rightarrow> Inr \<lparr>position = p, stack = rest\<rparr>)"

section \<open>Position Encoder: \<^verbatim>\<open>ChessEngine.board_to_tensor\<close>\<close>

definition SQUARES :: "nat list" where
  "SQUARES = [0..<64]"

definition pieces :: "piece_type list" where
  "pieces = [PAWN, KNIGHT, BISHOP, ROOK, QUEEN, KING]"

text \<open>\<^verbatim>\<open>list.index\<close>: the position of the first occurrence (Python raises ValueError
  when there is none; every piece type occurs in \<open>pieces\<close>, see \<open>index_pieces\<close>).\<close>

fun index :: "'a list \<Rightarrow> 'a \<Rightarrow> nat" where
  "index [] x = 0"
| "index (y # ys) x = (if y = x then 0 else Suc (index ys x))"

text \<open>The body of the loop over the squares, for one square.\<close>

definition encode_square :: "('p, 'm) rules \<Rightarrow> 'p \<Rightarrow> real list \<Rightarrow> nat \<Rightarrow> real list" where
  "encode_square R p x square =
     (case piece_at R p square of
        None \<Rightarrow> x
      | Some piece \<Rightarrow>
          let offset = (if color piece = WHITE then 0 else 6);
              piece_idx = index pieces (piece_type piece);
              idx = (square * 12) + (piece_idx + offset)
          in x[idx := 1])"

definition board_to_tensor :: "('p, 'm) rules \<Rightarrow> 'p \<Rightarrow> real list" where
  "board_to_tensor R p = foldl (encode_square R p) (replicate 768 0) SQUARES"

section \<open>The network and the engine object\<close>

text \<open>
  The network is a black box with two operations on its state \<open>'w\<close> (the
  parameters of \<^verbatim>\<open>ChessNet\<close> together with the state of the Adam optimizer):
  \<open>forward\<close> is \<^verbatim>\<open>self.model(tensor).item()\<close>, which reads the parameters;
  \<open>step\<close> is the body of \<^verbatim>\<open>train_step\<close> (zero_grad, forward, MSE loss,
  backward, optimizer step), which returns the loss and the new state.
\<close>

record 'w net =
  forward :: "'w \<Rightarrow> real list \<Rightarrow> real"
  step :: "'w \<Rightarrow> real list \<Rightarrow> real \<Rightarrow> real \<times> 'w"

text \<open>
  The state of a \<^verbatim>\<open>ChessEngine\<close>: \<open>model\<close> is the Model State, \<open>disk\<close> the
  content of the file at \<^verbatim>\<open>model_path\<close>, \<open>writable\<close> whether
  \<^verbatim>\<open>torch.save\<close> to that path succeeds.  Two traces record the calls made:
  \<open>evaluated\<close> the boards passed to \<^verbatim>\<open>evaluate\<close>, \<open>trained\<close> the
  (tensor, target) pairs passed to \<^verbatim>\<open>train_step\<close>.
\<close>

record ('p, 'm, 'w) engine =
  model :: 'w
  disk :: "'w option"
  writable :: bool
  evaluated :: "('p, 'm) board list"
  trained :: "(real list \<times> real) list"

definition evaluate ::
  "('p, 'm) rules \<Rightarrow> 'w net \<Rightarrow> ('p, 'm, 'w) engine \<Rightarrow> ('p, 'm) board
     \<Rightarrow> ext \<times> ('p, 'm, 'w) engine" where
  "evaluate R N eng b =
     (let tensor = board_to_tensor R (position b)
      in (Fin (forward N (model eng) tensor), eng\<lparr>evaluated := evaluated eng @ [b]\<rparr>))"

definition train_step ::
  "'w net \<Rightarrow> ('p, 'm, 'w) engine \<Rightarrow> real list \<Rightarrow> real \<Rightarrow> real \<times> ('p, 'm, 'w) engine" where
  "train_step N eng board_tensor target_val =
     (let (loss, w) = step N (model eng) board_tensor target_val
      in (loss, eng\<lparr>model := w, trained := trained eng @ [(board_tensor, target_val)]\<rparr>))"

definition save_model :: "('p, 'm, 'w) engine \<Rightarrow> (error + unit) \<times> ('p, 'm, 'w) engine" where
  "save_model eng =
     (if writable eng then (Inr (), eng\<lparr>disk := Some (model eng)\<rparr>) else (Inl OSError, eng))"

section \<open>Search Engine: \<^verbatim>\<open>ChessEngine.minimax\<close>\<close>

text \<open>
  \<open>minimax\<close> is the method; \<open>max_loop\<close> and \<open>min_loop\<close> are its two
  \<^verbatim>\<open>for move in board.legal_moves\<close> loops, over the moves still to try, with
  the loop variables \<open>alpha\<close>/\<open>beta\<close> and \<open>max_eval\<close>/\<open>min_eval\<close>.
  The loops receive \<open>d = depth - 1\<close>, the depth of the recursive calls.  The board
  and the engine are passed in and returned; an exception is \<open>Inl\<close>.
  \<^verbatim>\<open>break\<close> is the branch that returns without looking at the remaining moves.
  The depth is a natural number: \<^verbatim>\<open>get_move\<close> starts the search at depth 0, 1
  or 2 and each call passes \<open>depth - 1\<close> only when \<open>depth\<close> is not 0.  The moves
  of a loop are the legal moves of the board the loop starts on: the generator
  \<^verbatim>\<open>board.legal_moves\<close> is advanced only when the board is back in that state.
\<close>

function minimax ::
  "('p, 'm) rules \<Rightarrow> 'w net \<Rightarrow> ('p, 'm, 'w) engine \<Rightarrow> ('p, 'm) board \<Rightarrow> nat \<Rightarrow> ext \<Rightarrow> ext \<Rightarrow> bool
     \<Rightarrow> error + (ext \<times> ('p, 'm) board \<times> ('p, 'm, 'w) engine)"
and max_loop ::
  "('p, 'm) rules \<Rightarrow> 'w net \<Rightarrow> ('p, 'm, 'w) engine \<Rightarrow> ('p, 'm) board \<Rightarrow> nat \<Rightarrow> 'm list
     \<Rightarrow> ext \<Rightarrow> ext \<Rightarrow> ext \<Rightarrow> error + (ext \<times> ('p, 'm) board \<times> ('p, 'm, 'w) engine)"
and min_loop ::
  "('p, 'm) rules \<Rightarrow> 'w net \<Rightarrow> ('p, 'm, 'w) engine \<Rightarrow> ('p, 'm) board \<Rightarrow> nat \<Rightarrow> 'm list
     \<Rightarrow> ext \<Rightarrow> ext \<Rightarrow> ext \<Rightarrow> error + (ext \<times> ('p, 'm) board \<times> ('p, 'm, 'w) engine)"
where
  "minimax R N eng b depth alpha beta maximizing_player =
     (if depth = 0 \<or> is_game_over R (position b) then
        (let (v, eng') = evaluate R N eng b in Inr (v, b, eng'))
      else if maximizing_player then
        max_loop R N eng b (depth - 1) (legal_moves R (position b)) alpha beta MInf
      else
        min_loop R N eng b (depth - 1) (legal_moves R (position b)) alpha beta PInf)"
| "max_loop R N eng b d [] alpha beta max_eval = Inr (max_eval, b, eng)"
| "max_loop R N eng b d (move # moves) alpha beta max_eval =
     (case minimax R N eng (push R b move) d alpha beta False of
        Inl e \<Rightarrow> Inl e
      | Inr (eval, b1, eng1) \<Rightarrow>
          (case pop b1 of
             Inl e \<Rightarrow> Inl e
           | Inr b2 \<Rightarrow>
               let max_eval' = max max_eval eval;
                   alpha' = max alpha eval
               in if beta \<le> alpha' then Inr (max_eval', b2, eng1)
                  else max_loop R N eng1 b2 d moves alpha' beta max_eval'))"
| "min_loop R N eng b d [] alpha beta min_eval = Inr (min_eval, b, eng)"
| "min_loop R N eng b d (move # moves) alpha beta min_eval =
     (case minimax R N eng (push R b move) d alpha beta True of
        Inl e \<Rightarrow> Inl e
      | Inr (eval, b1, eng1) \<Rightarrow>
          (case pop b1 of
             Inl e \<Rightarrow> Inl e
           | Inr b2 \<Rightarrow>
               let min_eval' = min min_eval eval;
                   beta' = min beta eval
               in if beta' \<le> alpha then Inr (min_eval', b2, eng1)
                  else min_loop R N eng1 b2 d moves alpha beta' min_eval'))"
  by pat_completeness auto
termination
  by (relation "measures
        [\<lambda>x. case x of
           Inl (R, N, eng, b, depth, r) \<Rightarrow> 2 * depth
         | Inr (Inl (R, N, eng, b, d, moves, r)) \<Rightarrow> 2 * d + 1
         | Inr (Inr (R, N, eng, b, d, moves, r)) \<Rightarrow> 2 * d + 1,
         \<lambda>x. case x of
           Inl (R, N, eng, b, depth, r) \<Rightarrow> 0
         | Inr (Inl (R, N, eng, b, d, moves, r)) \<Rightarrow> length moves
         | Inr (Inr (R, N, eng, b, d, moves, r)) \<Rightarrow> length moves]") auto

declare minimax.simps [simp del]

section \<open>Move Selector: \<^verbatim>\<open>ChessEngine.get_move\<close>\<close>

text \<open>
  The random numbers one call may consume: \<open>roll\<close> is what
  \<^verbatim>\<open>random.random()\<close> returns (a float in [0, 1)), \<open>pick\<close> the number from
  which \<^verbatim>\<open>random.choice\<close> takes its index.  At most one of each is drawn per
  call of \<^verbatim>\<open>get_move\<close> and per ply of a self-play game.
\<close>

record draws =
  roll :: real
  pick :: nat

text \<open>\<^verbatim>\<open>random.choice(xs)\<close>: IndexError on an empty list, else the element at
  an index below \<open>length xs\<close>, here the number drawn reduced modulo the length.\<close>

definition random_choice :: "'a list \<Rightarrow> nat \<Rightarrow> error + 'a" where
  "random_choice xs k = (if xs = [] then Inl IndexError else Inr (xs ! (k mod length xs)))"

text \<open>The truth value of \<^verbatim>\<open>best_move\<close>: \<^verbatim>\<open>None\<close> is false, a move has
  the truth value python-chess gives it.\<close>

definition truthy :: "('p, 'm) rules \<Rightarrow> 'm option \<Rightarrow> bool" where
  "truthy R best_move = (case best_move of None \<Rightarrow> False | Some m \<Rightarrow> move_bool R m)"

text \<open>The root loop (lines 100 to 112), over the moves still to try.  The flag handed
  to \<open>minimax\<close> is \<^verbatim>\<open>not board.turn\<close>, read after the push; the comparison
  reads \<^verbatim>\<open>board.turn\<close> after the pop.\<close>

fun root_loop ::
  "('p, 'm) rules \<Rightarrow> 'w net \<Rightarrow> ('p, 'm, 'w) engine \<Rightarrow> ('p, 'm) board \<Rightarrow> nat \<Rightarrow> 'm list
     \<Rightarrow> 'm option \<Rightarrow> ext
     \<Rightarrow> error + (('m option \<times> ext) \<times> ('p, 'm) board \<times> ('p, 'm, 'w) engine)" where
  "root_loop R N eng b depth [] best_move best_val = Inr ((best_move, best_val), b, eng)"
| "root_loop R N eng b depth (move # moves) best_move best_val =
     (let b1 = push R b move
      in case minimax R N eng b1 (depth - 1) MInf PInf (\<not> turn R (position b1)) of
           Inl e \<Rightarrow> Inl e
         | Inr (val, b2, eng1) \<Rightarrow>
             (case pop b2 of
                Inl e \<Rightarrow> Inl e
              | Inr b3 \<Rightarrow>
                  if turn R (position b3) = WHITE then
                    (if best_val < val then root_loop R N eng1 b3 depth moves (Some move) val
                     else root_loop R N eng1 b3 depth moves best_move best_val)
                  else
                    (if val < best_val then root_loop R N eng1 b3 depth moves (Some move) val
                     else root_loop R N eng1 b3 depth moves best_move best_val)))"

text \<open>Lines 96 to 114: the search at a given depth and the final choice.\<close>

definition search_best ::
  "('p, 'm) rules \<Rightarrow> 'w net \<Rightarrow> ('p, 'm, 'w) engine \<Rightarrow> ('p, 'm) board \<Rightarrow> 'm list \<Rightarrow> nat
     \<Rightarrow> draws \<Rightarrow> error + (string option \<times> ('p, 'm, 'w) engine)" where
  "search_best R N eng b legal depth rnd =
     (let best_val = (if turn R (position b) = WHITE then MInf else PInf)
      in case root_loop R N eng b depth legal None best_val of
           Inl e \<Rightarrow> Inl e
         | Inr ((best_move, best_val'), b', eng') \<Rightarrow>
             if truthy R best_move then Inr (map_option (uci R) best_move, eng')
             else (case random_choice legal (pick rnd) of
                     Inl e \<Rightarrow> Inl e
                   | Inr m \<Rightarrow> Inr (Some (uci R m), eng')))"

definition get_move ::
  "('p, 'm) rules \<Rightarrow> 'w net \<Rightarrow> ('p, 'm, 'w) engine \<Rightarrow> string \<Rightarrow> int \<Rightarrow> draws
     \<Rightarrow> error + (string option \<times> ('p, 'm, 'w) engine)" where
  "get_move R N eng fen_str target_elo rnd =
     (case parse_fen R fen_str of
        None \<Rightarrow> Inl ValueError
      | Some p \<Rightarrow>
          let b = new_board p;
              legal = legal_moves R (position b)
          in if legal = [] then Inr (None, eng)
             else if target_elo < 1000 then
               (if roll rnd < 0.5 then
                  (case random_choice legal (pick rnd) of
                     Inl e \<Rightarrow> Inl e
                   | Inr m \<Rightarrow> Inr (Some (uci R m), eng))
                else search_best R N eng b legal 1 rnd)
             else if target_elo < 1800 then
               (if roll rnd < 0.2 then
                  (case random_choice legal (pick rnd) of
                     Inl e \<Rightarrow> Inl e
                   | Inr m \<Rightarrow> Inr (Some (uci R m), eng))
                else search_best R N eng b legal 2 rnd)
             else search_best R N eng b legal 3 rnd)"

section \<open>Trainer: \<^verbatim>\<open>SelfTrainer.play_game\<close> and \<^verbatim>\<open>SelfTrainer.loop\<close>\<close>

text \<open>
  The \<^verbatim>\<open>while not board.is_game_over()\<close> loop of \<^verbatim>\<open>play_game\<close>.  It need
  not end, so it runs on fuel: \<open>None\<close> says the fuel ran out before the game was
  over.  \<open>rnd i\<close> holds the random numbers of ply \<open>i\<close>.  An exception leaves
  the engine as it was when raised.  \<^verbatim>\<open>Move.from_uci(None)\<close> raises TypeError.
\<close>

fun play_moves ::
  "('p, 'm) rules \<Rightarrow> 'w net \<Rightarrow> nat \<Rightarrow> (nat \<Rightarrow> draws) \<Rightarrow> nat \<Rightarrow> ('p, 'm, 'w) engine
     \<Rightarrow> ('p, 'm) board \<Rightarrow> (real list \<times> bool) list
     \<Rightarrow> ((error + (('p, 'm) board \<times> (real list \<times> bool) list)) \<times> ('p, 'm, 'w) engine) option"
where
  "play_moves R N 0 rnd i eng b game_history =
     (if is_game_over R (position b) then Some (Inr (b, game_history), eng) else None)"
| "play_moves R N (Suc n) rnd i eng b game_history =
     (if is_game_over R (position b) then Some (Inr (b, game_history), eng)
      else
        let chosen =
          (if roll (rnd i) < 0.1 then
             (case random_choice (legal_moves R (position b)) (pick (rnd i)) of
                Inl e \<Rightarrow> (Inl e, eng)
              | Inr m \<Rightarrow> (Inr m, eng))
           else
             (case get_move R N eng (fen R (position b)) 2000 (rnd i) of
                Inl e \<Rightarrow> (Inl e, eng)
              | Inr (None, eng1) \<Rightarrow> (Inl TypeError, eng1)
              | Inr (Some move_str, eng1) \<Rightarrow>
                  (case from_uci R move_str of
                     None \<Rightarrow> (Inl ValueError, eng1)
                   | Some m \<Rightarrow> (Inr m, eng1))))
        in case chosen of
             (Inl e, eng1) \<Rightarrow> Some (Inl e, eng1)
           | (Inr move, eng1) \<Rightarrow>
               play_moves R N n rnd (Suc i) eng1 (push R b move)
                 (game_history @ [(board_to_tensor R (position b), turn R (position b))]))"

definition reward_of :: "string \<Rightarrow> real" where
  "reward_of res = (if res = ''1-0'' then 1.0 else if res = ''0-1'' then - 1.0 else 0.0)"

text \<open>The \<^verbatim>\<open>for tensor, turn in game_history\<close> loop (\<open>side\<close> is the
  loop variable \<^verbatim>\<open>turn\<close>).\<close>

fun train_all ::
  "'w net \<Rightarrow> ('p, 'm, 'w) engine \<Rightarrow> (real list \<times> bool) list \<Rightarrow> real \<Rightarrow> ('p, 'm, 'w) engine"
where
  "train_all N eng [] reward = eng"
| "train_all N eng ((tensor, side) # rest) reward =
     (let target = reward;
          (loss, eng') = train_step N eng tensor target
      in train_all N eng' rest reward)"

definition play_game ::
  "('p, 'm) rules \<Rightarrow> 'w net \<Rightarrow> nat \<Rightarrow> (nat \<Rightarrow> draws) \<Rightarrow> ('p, 'm, 'w) engine
     \<Rightarrow> ((error + unit) \<times> ('p, 'm, 'w) engine) option" where
  "play_game R N fuel rnd eng =
     (case play_moves R N fuel rnd 0 eng (new_board (initial R)) [] of
        None \<Rightarrow> None
      | Some (Inl e, eng1) \<Rightarrow> Some (Inl e, eng1)
      | Some (Inr (b, game_history), eng1) \<Rightarrow>
          let res = result R (position b);
              reward = reward_of res;
              eng2 = train_all N eng1 game_history reward
          in Some (save_model eng2))"

text \<open>
  What \<^verbatim>\<open>loop\<close> does that can be seen from outside: it sleeps and it prints
  an error.  \<^verbatim>\<open>self.running\<close> is set once, to True, so the loop has no exit;
  \<open>loop\<close> runs its first \<open>n\<close> iterations and returns the engine and the trace
  (\<open>None\<close>: one of the games never ended).  \<open>rnd k\<close> holds the random numbers
  of game \<open>k\<close>.
\<close>

datatype event = Sleep nat | PrintError error

fun loop ::
  "('p, 'm) rules \<Rightarrow> 'w net \<Rightarrow> nat \<Rightarrow> (nat \<Rightarrow> nat \<Rightarrow> draws) \<Rightarrow> nat \<Rightarrow> nat
     \<Rightarrow> ('p, 'm, 'w) engine \<Rightarrow> event list \<Rightarrow> (('p, 'm, 'w) engine \<times> event list) option" where
  "loop R N fuel rnd k 0 eng trace = Some (eng, trace)"
| "loop R N fuel rnd k (Suc n) eng trace =
     (case play_game R N fuel (rnd k) eng of
        None \<Rightarrow> None
      | Some (Inr u, eng1) \<Rightarrow> loop R N fuel rnd (Suc k) n eng1 (trace @ [Sleep 1])
      | Some (Inl e, eng1) \<Rightarrow> loop R N fuel rnd (Suc k) n eng1 (trace @ [PrintError e]))"

section \<open>Reference definitions, from the specification\<close>

text \<open>
  Full minimax without pruning, on positions: the value of a leaf (depth 0 or a
  finished game) is the network's evaluation of the encoded position, the value of a
  node where the maximizing side moves is the greatest value of its children (the
  least one where the minimizing side moves), and the role alternates at every ply.
\<close>

fun full_minimax :: "('p, 'm) rules \<Rightarrow> 'w net \<Rightarrow> 'w \<Rightarrow> 'p \<Rightarrow> nat \<Rightarrow> bool \<Rightarrow> ext" where
  "full_minimax R N w p 0 maximizing = Fin (forward N w (board_to_tensor R p))"
| "full_minimax R N w p (Suc d) maximizing =
     (if is_game_over R p then Fin (forward N w (board_to_tensor R p))
      else if maximizing then
        foldr max (map (\<lambda>m. full_minimax R N w (apply_move R p m) d False) (legal_moves R p)) MInf
      else
        foldr min (map (\<lambda>m. full_minimax R N w (apply_move R p m) d True) (legal_moves R p)) PInf)"

text \<open>
  How a value \<open>r\<close> returned under the window \<open>(alpha, beta)\<close> relates to the
  full value \<open>v\<close>: at or below \<open>alpha\<close> it is an upper bound of \<open>v\<close>, at or
  above \<open>beta\<close> a lower bound, strictly inside the window it is \<open>v\<close>.  \<open>max_inv\<close>
  and \<open>min_inv\<close> are the same for a loop that started with the running value
  \<open>acc\<close>, where \<open>V\<close> is the full value of the moves the loop still had to try.
\<close>

definition fail_soft :: "ext \<Rightarrow> ext \<Rightarrow> ext \<Rightarrow> ext \<Rightarrow> bool" where
  "fail_soft alpha beta r v =
     ((r \<le> alpha \<longrightarrow> v \<le> r) \<and> (beta \<le> r \<longrightarrow> r \<le> v) \<and> (alpha < r \<and> r < beta \<longrightarrow> r = v))"

definition max_inv :: "ext \<Rightarrow> ext \<Rightarrow> ext \<Rightarrow> ext \<Rightarrow> ext \<Rightarrow> bool" where
  "max_inv alpha beta acc r V =
     (acc \<le> r \<and> (beta \<le> r \<longrightarrow> r \<le> V) \<and> (r < beta \<longrightarrow> V \<le> r)
      \<and> (alpha < r \<and> r < beta \<longrightarrow> r \<le> V))"

definition min_inv :: "ext \<Rightarrow> ext \<Rightarrow> ext \<Rightarrow> ext \<Rightarrow> ext \<Rightarrow> bool" where
  "min_inv alpha beta acc r V =
     (r \<le> acc \<and> (r \<le> alpha \<longrightarrow> V \<le> r) \<and> (alpha < r \<longrightarrow> r \<le> V)
      \<and> (alpha < r \<and> r < beta \<longrightarrow> V \<le> r))"

text \<open>The fixed enumeration of the piece types, and the slot of a piece on a square.\<close>

fun piece_type_rank :: "piece_type \<Rightarrow> nat" where
  "piece_type_rank PAWN = 0"
| "piece_type_rank KNIGHT = 1"
| "piece_type_rank BISHOP = 2"
| "piece_type_rank ROOK = 3"
| "piece_type_rank QUEEN = 4"
| "piece_type_rank KING = 5"

definition slot_index :: "nat \<Rightarrow> piece \<Rightarrow> nat" where
  "slot_index square_index pc =
     square_index * 12 + piece_type_rank (piece_type pc) + (if color pc = WHITE then 0 else 6)"

text \<open>The policy table of the Move Selector: the probability of a random move and
  the search depth, by rating.\<close>

definition tier :: "int \<Rightarrow> real \<times> nat" where
  "tier r = (if r < 1000 then (0.5, 1) else if r < 1800 then (0.2, 2) else (0.0, 3))"

text \<open>
  What a search of a given depth looks at.  \<open>within_plies R b lo d x\<close>: the board
  \<open>x\<close> lies at least \<open>lo\<close> and at most \<open>d\<close> plies below the board \<open>b\<close>,
  and exactly \<open>d\<close> plies below it unless the game is over at \<open>x\<close>.
  \<open>no_dead_end R\<close>: where the game is not over there is a legal move (in chess a
  position without legal moves is checkmate or stalemate).
\<close>

definition within_plies ::
  "('p, 'm) rules \<Rightarrow> ('p, 'm) board \<Rightarrow> nat \<Rightarrow> nat \<Rightarrow> ('p, 'm) board \<Rightarrow> bool" where
  "within_plies R b lo d x =
     (length (stack b) + lo \<le> length (stack x) \<and> length (stack x) \<le> length (stack b) + d
      \<and> (is_game_over R (position x) \<or> length (stack x) = length (stack b) + d))"

definition no_dead_end :: "('p, 'm) rules \<Rightarrow> bool" where
  "no_dead_end R = (\<forall>q. \<not> is_game_over R q \<longrightarrow> legal_moves R q \<noteq> [])"

text \<open>
  Root-level selection over scored moves: for White keep the first move whose value
  is strictly greater than the best so far, for Black strictly less; ties keep the
  earlier move.
\<close>

fun root_choice :: "bool \<Rightarrow> ('m \<times> ext) list \<Rightarrow> 'm option \<Rightarrow> ext \<Rightarrow> 'm option \<times> ext" where
  "root_choice white [] best_move best_val = (best_move, best_val)"
| "root_choice white ((m, v) # rest) best_move best_val =
     (if (if white then best_val < v else v < best_val) then root_choice white rest (Some m) v
      else root_choice white rest best_move best_val)"

section \<open>A small game, to run the definitions on\<close>

text \<open>
  Positions and moves are numbers; a move is the position it leads to.  White moves
  at 0 (to 2 or 1), Black at 1 (to 4 or 3) and at 2 (to 5 or 6); the game is over at
  3, 4, 5 and 6, where one white piece on square 0 tells the positions apart.
  Position 7 has one move, to 8, where the game is not over although no move is legal.
\<close>

definition toy :: "(nat, nat) rules" where
  "toy = \<lparr>
     parse_fen = (\<lambda>s. if list_all (\<lambda>c. c = CHR ''x'') s then Some (length s) else None),
     fen = (\<lambda>p. replicate p (CHR ''x'')),
     initial = 0,
     legal_moves = (\<lambda>p. if p = 0 then [2, 1] else if p = 1 then [4, 3]
                         else if p = 2 then [5, 6] else if p = 7 then [8] else []),
     apply_move = (\<lambda>p m. m),
     is_game_over = (\<lambda>p. 3 \<le> p \<and> p \<le> 6),
     turn = (\<lambda>p. p \<noteq> 1 \<and> p \<noteq> 2 \<and> p \<noteq> 8),
     piece_at = (\<lambda>p sq.
        if sq \<noteq> 0 then None
        else if p = 3 then Some \<lparr>piece_type = PAWN, color = True\<rparr>
        else if p = 4 then Some \<lparr>piece_type = KNIGHT, color = True\<rparr>
        else if p = 5 then Some \<lparr>piece_type = BISHOP, color = True\<rparr>
        else if p = 6 then Some \<lparr>piece_type = ROOK, color = True\<rparr>
        else None),
     result = (\<lambda>p. if p = 3 then ''1-0'' else if p = 4 then ''0-1'' else ''1/2-1/2''),
     uci = (\<lambda>m. replicate m (CHR ''m'')),
     from_uci = (\<lambda>s. Some (length s)),
     move_bool = (\<lambda>m. True)\<rparr>"

text \<open>The same game with the rule that the game is over wherever no move is legal.\<close>

definition toy2 :: "(nat, nat) rules" where
  "toy2 = toy\<lparr>is_game_over := (\<lambda>p. legal_moves toy p = [])\<rparr>"

text \<open>A network whose state counts the training steps and whose output reads the
  first four entries of the tensor: 0.9 at position 3, -0.9 at 4, 0.1 at 5, 0.2 at 6.\<close>

definition toy_forward :: "nat \<Rightarrow> real list \<Rightarrow> real" where
  "toy_forward w t = 9 / 10 * t ! 0 - 9 / 10 * t ! 1 + 1 / 10 * t ! 2 + 2 / 10 * t ! 3"

definition toy_net :: "nat net" where
  "toy_net = \<lparr>forward = toy_forward,
              step = (\<lambda>w t target. ((toy_forward w t - target)\<^sup>2, Suc w))\<rparr>"

definition toy_engine :: "(nat, nat, nat) engine" where
  "toy_engine = \<lparr>model = 0, disk = None, writable = True, evaluated = [], trained = []\<rparr>"

section \<open>The encoder\<close>

lemma index_pieces: "index pieces t = piece_type_rank t"
  by (cases t) (simp_all add: pieces_def)

lemma piece_type_rank_less: "piece_type_rank t < 6"
  by (cases t) simp_all

lemma encode_square_eq:
  "encode_square R p x sq =
     (case piece_at R p sq of None \<Rightarrow> x | Some pc \<Rightarrow> x[slot_index sq pc := 1])"
  by (simp add: encode_square_def slot_index_def index_pieces Let_def add.assoc split: option.splits)

lemma slot_index_div: "slot_index sq pc div 12 = sq"
proof -
  obtain k where "slot_index sq pc = sq * 12 + k" "k < 12"
    using piece_type_rank_less [of "piece_type pc"] by (simp add: slot_index_def)
  then show ?thesis by simp
qed

lemma slot_index_less: "sq < 64 \<Longrightarrow> slot_index sq pc < 768"
  using piece_type_rank_less [of "piece_type pc"] by (simp add: slot_index_def)

lemma length_encode_square [simp]: "length (encode_square R p x sq) = length x"
  by (simp add: encode_square_eq split: option.splits)

lemma length_foldl_encode [simp]: "length (foldl (encode_square R p) x sqs) = length x"
  by (induction sqs arbitrary: x) simp_all

lemma encode_upt_nth:
  "n \<le> 64 \<Longrightarrow> i < 768 \<Longrightarrow>
   foldl (encode_square R p) (replicate 768 0) [0..<n] ! i =
     (case piece_at R p (i div 12) of
        None \<Rightarrow> 0
      | Some pc \<Rightarrow> if i div 12 < n \<and> i = slot_index (i div 12) pc then 1 else 0)"
proof (induction n)
  case 0
  then show ?case by (simp split: option.splits)
next
  case (Suc n)
  let ?x = "foldl (encode_square R p) (replicate 768 0) [0..<n]"
  have IH: "?x ! i = (case piece_at R p (i div 12) of
        None \<Rightarrow> 0
      | Some pc \<Rightarrow> if i div 12 < n \<and> i = slot_index (i div 12) pc then 1 else 0)"
    using Suc by simp
  have len: "length ?x = 768" by simp
  show ?case
  proof (cases "piece_at R p n")
    case None
    then have "foldl (encode_square R p) (replicate 768 0) [0..<Suc n] = ?x"
      by (simp add: encode_square_eq)
    moreover have "i div 12 = n \<Longrightarrow> piece_at R p (i div 12) = None"
      using None by simp
    ultimately show ?thesis
      using IH by (auto split: option.splits simp: less_Suc_eq)
  next
    case (Some pc)
    then have upd: "foldl (encode_square R p) (replicate 768 0) [0..<Suc n] = ?x[slot_index n pc := 1]"
      by (simp add: encode_square_eq)
    have sl: "slot_index n pc < 768" using Suc.prems by (simp add: slot_index_less)
    show ?thesis
    proof (cases "i = slot_index n pc")
      case True
      then have "i div 12 = n" by (simp add: slot_index_div)
      then show ?thesis using True Some upd len sl by simp
    next
      case False
      then have "?x[slot_index n pc := 1] ! i = ?x ! i" by simp
      moreover have "i div 12 = n \<Longrightarrow> piece_at R p (i div 12) = Some pc"
        using Some by simp
      ultimately show ?thesis
        using IH upd False by (auto split: option.splits simp: less_Suc_eq)
    qed
  qed
qed

lemma board_to_tensor_nth:
  "i < 768 \<Longrightarrow>
   board_to_tensor R p ! i =
     (case piece_at R p (i div 12) of
        None \<Rightarrow> 0
      | Some pc \<Rightarrow> if i = slot_index (i div 12) pc then 1 else 0)"
  using encode_upt_nth [of 64 i R p]
  by (auto simp: board_to_tensor_def SQUARES_def split: option.splits)

lemma length_board_to_tensor: "length (board_to_tensor R p) = 768"
  by (simp add: board_to_tensor_def)

lemma count_ones_update:
  "i < length xs \<Longrightarrow> xs ! i = 0 \<Longrightarrow>
   length (filter (\<lambda>v. v = 1) (xs[i := 1::real])) = Suc (length (filter (\<lambda>v. v = 1) xs))"
proof (induction xs arbitrary: i)
  case Nil
  then show ?case by simp
next
  case (Cons a xs)
  then show ?case by (cases i) simp_all
qed

lemma encode_upt_count:
  "n \<le> 64 \<Longrightarrow>
   length (filter (\<lambda>v. v = 1) (foldl (encode_square R p) (replicate 768 0) [0..<n])) =
   length (filter (\<lambda>sq. piece_at R p sq \<noteq> None) [0..<n])"
proof (induction n)
  case 0
  then show ?case by simp
next
  case (Suc n)
  let ?x = "foldl (encode_square R p) (replicate 768 0) [0..<n]"
  show ?case
  proof (cases "piece_at R p n")
    case None
    then have "foldl (encode_square R p) (replicate 768 0) [0..<Suc n] = ?x"
      by (simp add: encode_square_eq)
    then show ?thesis using Suc None by simp
  next
    case (Some pc)
    then have upd: "foldl (encode_square R p) (replicate 768 0) [0..<Suc n] = ?x[slot_index n pc := 1]"
      by (simp add: encode_square_eq)
    have sl: "slot_index n pc < 768" using Suc.prems by (simp add: slot_index_less)
    have "?x ! slot_index n pc = 0"
      using encode_upt_nth [of n "slot_index n pc" R p] sl Suc.prems
      by (simp add: slot_index_div Some)
    then have "length (filter (\<lambda>v. v = 1) (?x[slot_index n pc := 1])) = Suc (length (filter (\<lambda>v. v = 1) ?x))"
      using sl by (intro count_ones_update) simp_all
    then show ?thesis using Suc Some upd by simp
  qed
qed

text \<open>
  Claim C3.  The encoding of any position is a vector of length 768 with entries 0 and
  1 only; it has as many entries 1 as there are occupied squares; the piece \<open>pc\<close>
  on square \<open>sq\<close> sets the entry at
  \<open>sq * 12 + piece_type_rank + (0 if White else 6)\<close>; an entry is 1 only at
  such an index, and every other entry is 0.  The encoder is a function of the
  position alone and returns nothing but the vector.
\<close>

theorem board_to_tensor_encoding:
  "length (board_to_tensor R p) = 768
   \<and> set (board_to_tensor R p) \<subseteq> {0, 1}
   \<and> length (filter (\<lambda>v. v = 1) (board_to_tensor R p)) =
       length (filter (\<lambda>sq. piece_at R p sq \<noteq> None) SQUARES)
   \<and> (\<forall>sq < 64. \<forall>pc. piece_at R p sq = Some pc \<longrightarrow>
         slot_index sq pc < 768 \<and> board_to_tensor R p ! slot_index sq pc = 1)
   \<and> (\<forall>i < 768. board_to_tensor R p ! i = 1 \<longrightarrow>
         (\<exists>pc. piece_at R p (i div 12) = Some pc \<and> i = slot_index (i div 12) pc))
   \<and> (\<forall>i < 768. board_to_tensor R p ! i \<noteq> 1 \<longrightarrow> board_to_tensor R p ! i = 0)"
proof -
  have 1: "length (board_to_tensor R p) = 768" by (rule length_board_to_tensor)
  have 6: "\<forall>i < 768. board_to_tensor R p ! i \<noteq> 1 \<longrightarrow> board_to_tensor R p ! i = 0"
    by (auto simp: board_to_tensor_nth split: option.splits)
  have 2: "set (board_to_tensor R p) \<subseteq> {0, 1}"
    using 6 1 by (auto simp: in_set_conv_nth)
  have 3: "length (filter (\<lambda>v. v = 1) (board_to_tensor R p)) =
       length (filter (\<lambda>sq. piece_at R p sq \<noteq> None) SQUARES)"
    using encode_upt_count [of 64 R p] by (simp add: board_to_tensor_def SQUARES_def)
  have 4: "\<forall>sq < 64. \<forall>pc. piece_at R p sq = Some pc \<longrightarrow>
         slot_index sq pc < 768 \<and> board_to_tensor R p ! slot_index sq pc = 1"
    by (simp add: board_to_tensor_nth slot_index_less slot_index_div)
  have 5: "\<forall>i < 768. board_to_tensor R p ! i = 1 \<longrightarrow>
         (\<exists>pc. piece_at R p (i div 12) = Some pc \<and> i = slot_index (i div 12) pc)"
    by (auto simp: board_to_tensor_nth split: option.splits if_splits)
  show ?thesis using 1 2 3 4 5 6 by blast
qed

lemma toy_sel:
  "parse_fen toy = (\<lambda>s. if list_all (\<lambda>c. c = CHR ''x'') s then Some (length s) else None)"
  "fen toy = (\<lambda>p. replicate p (CHR ''x''))"
  "initial toy = 0"
  "legal_moves toy = (\<lambda>p. if p = 0 then [2, 1] else if p = 1 then [4, 3]
                         else if p = 2 then [5, 6] else if p = 7 then [8] else [])"
  "apply_move toy = (\<lambda>p m. m)"
  "is_game_over toy = (\<lambda>p. 3 \<le> p \<and> p \<le> 6)"
  "turn toy = (\<lambda>p. p \<noteq> 1 \<and> p \<noteq> 2 \<and> p \<noteq> 8)"
  "result toy = (\<lambda>p. if p = 3 then ''1-0'' else if p = 4 then ''0-1'' else ''1/2-1/2'')"
  "uci toy = (\<lambda>m. replicate m (CHR ''m''))"
  "from_uci toy = (\<lambda>s. Some (length s))"
  "move_bool toy = (\<lambda>m. True)"
  by (simp_all add: toy_def)

lemma toy_piece_at:
  "piece_at toy p sq =
     (if sq \<noteq> 0 then None
      else if p = 3 then Some \<lparr>piece_type = PAWN, color = True\<rparr>
      else if p = 4 then Some \<lparr>piece_type = KNIGHT, color = True\<rparr>
      else if p = 5 then Some \<lparr>piece_type = BISHOP, color = True\<rparr>
      else if p = 6 then Some \<lparr>piece_type = ROOK, color = True\<rparr>
      else None)"
  by (simp add: toy_def)

lemma toy_occupied: "length (filter (\<lambda>sq. piece_at toy 3 sq \<noteq> None) SQUARES) = 1"
  by (simp add: toy_piece_at SQUARES_def upt_rec)

theorem board_to_tensor_encoding_witness:
  "length (board_to_tensor toy 3) = 768
   \<and> length (filter (\<lambda>v. v = 1) (board_to_tensor toy 3)) = 1
   \<and> board_to_tensor toy 3 ! 0 = 1"
proof -
  note t = board_to_tensor_encoding [of toy 3]
  have 1: "length (board_to_tensor toy 3) = 768"
    using t by blast
  have 2: "length (filter (\<lambda>v. v = 1) (board_to_tensor toy 3)) = 1"
    using t toy_occupied by simp
  have "\<forall>sq<64. \<forall>pc. piece_at toy 3 sq = Some pc \<longrightarrow>
          board_to_tensor toy 3 ! slot_index sq pc = 1"
    using t by blast
  then have "board_to_tensor toy 3 ! slot_index 0 \<lparr>piece_type = PAWN, color = True\<rparr> = 1"
    by (simp add: toy_piece_at)
  then have 3: "board_to_tensor toy 3 ! 0 = 1"
    by (simp add: slot_index_def WHITE_def)
  show ?thesis using 1 2 3 by blast
qed

section \<open>The search restores the board and only appends to the evaluation trace\<close>

lemma pop_push [simp]: "pop (push R b m) = Inr b"
  by (simp add: pop_def push_def)

lemma stack_push [simp]: "length (stack (push R b m)) = Suc (length (stack b))"
  by (simp add: push_def)

lemma position_push [simp]: "position (push R b m) = apply_move R (position b) m"
  by (simp add: push_def)

text \<open>
  Every call returns normally, with the board it was given and with an engine that
  differs from the given one in the trace of evaluated boards only; each board added
  to the trace is a finished game or lies \<open>depth\<close> plies below the board of the call.
\<close>

lemma minimax_frame:
  "\<exists>v new. minimax R N eng b depth alpha beta mx = Inr (v, b, eng\<lparr>evaluated := evaluated eng @ new\<rparr>)
      \<and> (\<forall>x \<in> set new. is_game_over R (position x) \<or> length (stack x) = length (stack b) + depth)"
  and max_loop_frame:
    "\<exists>v new. max_loop R N eng b d ms alpha beta acc = Inr (v, b, eng\<lparr>evaluated := evaluated eng @ new\<rparr>)
      \<and> (\<forall>x \<in> set new. is_game_over R (position x) \<or> length (stack x) = length (stack b) + Suc d)"
  and min_loop_frame:
    "\<exists>v new. min_loop R N eng b d ms alpha beta acc = Inr (v, b, eng\<lparr>evaluated := evaluated eng @ new\<rparr>)
      \<and> (\<forall>x \<in> set new. is_game_over R (position x) \<or> length (stack x) = length (stack b) + Suc d)"
proof (induction R N eng b depth alpha beta mx and R N eng b d ms alpha beta acc
         and R N eng b d ms alpha beta acc rule: minimax_max_loop_min_loop.induct)
  case (1 R N eng b depth alpha beta maximizing_player)
  show ?case
  proof (cases "depth = 0 \<or> is_game_over R (position b)")
    case True
    then have "minimax R N eng b depth alpha beta maximizing_player =
        Inr (Fin (forward N (model eng) (board_to_tensor R (position b))), b,
             eng\<lparr>evaluated := evaluated eng @ [b]\<rparr>)"
      by (simp add: minimax.simps evaluate_def)
    then show ?thesis using True by auto
  next
    case False
    then have d: "Suc (depth - 1) = depth" by simp
    show ?thesis
    proof (cases maximizing_player)
      case True
      then have "minimax R N eng b depth alpha beta maximizing_player =
          max_loop R N eng b (depth - 1) (legal_moves R (position b)) alpha beta MInf"
        using False by (simp add: minimax.simps)
      then show ?thesis using "1.IH"(1) [OF False True] d by simp
    next
      case mn: False
      then have "minimax R N eng b depth alpha beta maximizing_player =
          min_loop R N eng b (depth - 1) (legal_moves R (position b)) alpha beta PInf"
        using False by (simp add: minimax.simps)
      then show ?thesis using "1.IH"(2) [OF False mn] d by simp
    qed
  qed
next
  case (2 R N eng b d alpha beta max_eval)
  show ?case by (auto intro: exI [of _ "[]"])
next
  case (3 R N eng b d move moves alpha beta max_eval)
  obtain ev new1 where
    c: "minimax R N eng (push R b move) d alpha beta False =
          Inr (ev, push R b move, eng\<lparr>evaluated := evaluated eng @ new1\<rparr>)"
    and n1: "\<forall>x \<in> set new1. is_game_over R (position x) \<or> length (stack x) = length (stack b) + Suc d"
    using "3.IH"(1) by auto
  let ?eng1 = "eng\<lparr>evaluated := evaluated eng @ new1\<rparr>"
  show ?case
  proof (cases "beta \<le> max alpha ev")
    case True
    then have "max_loop R N eng b d (move # moves) alpha beta max_eval = Inr (max max_eval ev, b, ?eng1)"
      using c by (simp add: Let_def)
    then show ?thesis using n1 by blast
  next
    case False
    then have eq: "max_loop R N eng b d (move # moves) alpha beta max_eval =
        max_loop R N ?eng1 b d moves (max alpha ev) beta (max max_eval ev)"
      using c by (simp add: Let_def)
    obtain v new2 where
      l: "max_loop R N ?eng1 b d moves (max alpha ev) beta (max max_eval ev) =
            Inr (v, b, ?eng1\<lparr>evaluated := evaluated ?eng1 @ new2\<rparr>)"
      and n2: "\<forall>x \<in> set new2. is_game_over R (position x) \<or> length (stack x) = length (stack b) + Suc d"
      using "3.IH"(2) [OF c refl refl pop_push refl refl False] by auto
    have "max_loop R N eng b d (move # moves) alpha beta max_eval =
        Inr (v, b, eng\<lparr>evaluated := evaluated eng @ (new1 @ new2)\<rparr>)"
      using eq l by simp
    moreover have "\<forall>x \<in> set (new1 @ new2). is_game_over R (position x) \<or> length (stack x) = length (stack b) + Suc d"
      using n1 n2 by auto
    ultimately show ?thesis by blast
  qed
next
  case (4 R N eng b d alpha beta min_eval)
  show ?case by (auto intro: exI [of _ "[]"])
next
  case (5 R N eng b d move moves alpha beta min_eval)
  obtain ev new1 where
    c: "minimax R N eng (push R b move) d alpha beta True =
          Inr (ev, push R b move, eng\<lparr>evaluated := evaluated eng @ new1\<rparr>)"
    and n1: "\<forall>x \<in> set new1. is_game_over R (position x) \<or> length (stack x) = length (stack b) + Suc d"
    using "5.IH"(1) by auto
  let ?eng1 = "eng\<lparr>evaluated := evaluated eng @ new1\<rparr>"
  show ?case
  proof (cases "min beta ev \<le> alpha")
    case True
    then have "min_loop R N eng b d (move # moves) alpha beta min_eval = Inr (min min_eval ev, b, ?eng1)"
      using c by (simp add: Let_def)
    then show ?thesis using n1 by blast
  next
    case False
    then have eq: "min_loop R N eng b d (move # moves) alpha beta min_eval =
        min_loop R N ?eng1 b d moves alpha (min beta ev) (min min_eval ev)"
      using c by (simp add: Let_def)
    obtain v new2 where
      l: "min_loop R N ?eng1 b d moves alpha (min beta ev) (min min_eval ev) =
            Inr (v, b, ?eng1\<lparr>evaluated := evaluated ?eng1 @ new2\<rparr>)"
      and n2: "\<forall>x \<in> set new2. is_game_over R (position x) \<or> length (stack x) = length (stack b) + Suc d"
      using "5.IH"(2) [OF c refl refl pop_push refl refl False] by auto
    have "min_loop R N eng b d (move # moves) alpha beta min_eval =
        Inr (v, b, eng\<lparr>evaluated := evaluated eng @ (new1 @ new2)\<rparr>)"
      using eq l by simp
    moreover have "\<forall>x \<in> set (new1 @ new2). is_game_over R (position x) \<or> length (stack x) = length (stack b) + Suc d"
      using n1 n2 by auto
    ultimately show ?thesis by blast
  qed
qed

section \<open>Pruning does not change the value\<close>

lemma MInf_least [simp]: "MInf \<le> x"
  by (cases x) simp_all

lemma PInf_greatest [simp]: "x \<le> PInf"
  by (cases x) simp_all

lemma MInf_less_PInf [simp]: "MInf < PInf"
  by (simp add: less_ext_def)

lemma le_MInf [simp]: "x \<le> MInf \<longleftrightarrow> x = MInf"
  by (cases x) simp_all

lemma PInf_le [simp]: "PInf \<le> x \<longleftrightarrow> x = PInf"
  by (cases x) simp_all

lemma max_inv_break:
  assumes "acc \<le> alpha" "alpha < beta" "fail_soft alpha beta r1 v1" "beta \<le> max alpha r1"
  shows "max_inv alpha beta acc (max acc r1) (max v1 V)"
  using assms unfolding fail_soft_def max_inv_def
  by (auto simp: max_def split: if_splits)

lemma max_inv_cont:
  assumes "acc \<le> alpha" "alpha < beta" "fail_soft alpha beta r1 v1" "\<not> beta \<le> max alpha r1"
    "max_inv (max alpha r1) beta (max acc r1) r V"
  shows "max_inv alpha beta acc r (max v1 V)"
  using assms unfolding fail_soft_def max_inv_def
  by (auto simp: max_def split: if_splits)

lemma min_inv_break:
  assumes "beta \<le> acc" "alpha < beta" "fail_soft alpha beta r1 v1" "min beta r1 \<le> alpha"
  shows "min_inv alpha beta acc (min acc r1) (min v1 V)"
  using assms unfolding fail_soft_def min_inv_def
  by (auto simp: min_def split: if_splits)

lemma min_inv_cont:
  assumes "beta \<le> acc" "alpha < beta" "fail_soft alpha beta r1 v1" "\<not> min beta r1 \<le> alpha"
    "min_inv alpha (min beta r1) (min acc r1) r V"
  shows "min_inv alpha beta acc r (min v1 V)"
  using assms unfolding fail_soft_def min_inv_def
  by (auto simp: min_def split: if_splits)

lemma max_inv_fail_soft: "alpha < beta \<Longrightarrow> max_inv alpha beta MInf r V \<Longrightarrow> fail_soft alpha beta r V"
  unfolding fail_soft_def max_inv_def by auto

lemma min_inv_fail_soft: "alpha < beta \<Longrightarrow> min_inv alpha beta PInf r V \<Longrightarrow> fail_soft alpha beta r V"
  unfolding fail_soft_def min_inv_def by auto

lemma fail_soft_full: "fail_soft MInf PInf r v \<Longrightarrow> r = v"
  unfolding fail_soft_def by (cases r; cases v) (auto simp: less_ext_def)

lemma full_minimax_leaf:
  "depth = 0 \<or> is_game_over R p \<Longrightarrow>
   full_minimax R N w p depth mx = Fin (forward N w (board_to_tensor R p))"
  by (cases depth) auto

lemma full_minimax_node:
  "depth \<noteq> 0 \<Longrightarrow> \<not> is_game_over R p \<Longrightarrow>
   full_minimax R N w p depth mx =
     (if mx then
        foldr max (map (\<lambda>m. full_minimax R N w (apply_move R p m) (depth - 1) False) (legal_moves R p)) MInf
      else
        foldr min (map (\<lambda>m. full_minimax R N w (apply_move R p m) (depth - 1) True) (legal_moves R p)) PInf)"
  by (cases depth) auto

lemma minimax_value:
  "alpha < beta \<Longrightarrow> minimax R N eng b depth alpha beta mx = Inr (r, b', eng') \<Longrightarrow>
     fail_soft alpha beta r (full_minimax R N (model eng) (position b) depth mx)"
  and max_loop_value:
    "acc \<le> alpha \<Longrightarrow> alpha < beta \<Longrightarrow>
     max_loop R N eng b d ms alpha beta acc = Inr (r, b', eng') \<Longrightarrow>
     max_inv alpha beta acc r
       (foldr max (map (\<lambda>m. full_minimax R N (model eng) (apply_move R (position b) m) d False) ms) MInf)"
  and min_loop_value:
    "beta \<le> acc \<Longrightarrow> alpha < beta \<Longrightarrow>
     min_loop R N eng b d ms alpha beta acc = Inr (r, b', eng') \<Longrightarrow>
     min_inv alpha beta acc r
       (foldr min (map (\<lambda>m. full_minimax R N (model eng) (apply_move R (position b) m) d True) ms) PInf)"
proof (induction R N eng b depth alpha beta mx and R N eng b d ms alpha beta acc
         and R N eng b d ms alpha beta acc
       arbitrary: r b' eng' and r b' eng' and r b' eng'
       rule: minimax_max_loop_min_loop.induct)
  case (1 R N eng b depth alpha beta maximizing_player)
  show ?case
  proof (cases "depth = 0 \<or> is_game_over R (position b)")
    case True
    then have "r = Fin (forward N (model eng) (board_to_tensor R (position b)))"
      using "1.prems"(2) by (auto simp: minimax.simps evaluate_def)
    then show ?thesis
      using True by (simp add: full_minimax_leaf fail_soft_def)
  next
    case False
    show ?thesis
    proof (cases maximizing_player)
      case True
      then have "max_loop R N eng b (depth - 1) (legal_moves R (position b)) alpha beta MInf = Inr (r, b', eng')"
        using False "1.prems"(2) by (simp add: minimax.simps)
      then have "max_inv alpha beta MInf r
         (foldr max (map (\<lambda>m. full_minimax R N (model eng) (apply_move R (position b) m) (depth - 1) False)
            (legal_moves R (position b))) MInf)"
        using "1.IH"(1) [OF False True _ "1.prems"(1)] by simp
      then show ?thesis
        using False True "1.prems"(1) by (simp add: full_minimax_node max_inv_fail_soft)
    next
      case mn: False
      then have "min_loop R N eng b (depth - 1) (legal_moves R (position b)) alpha beta PInf = Inr (r, b', eng')"
        using False "1.prems"(2) by (simp add: minimax.simps)
      then have "min_inv alpha beta PInf r
         (foldr min (map (\<lambda>m. full_minimax R N (model eng) (apply_move R (position b) m) (depth - 1) True)
            (legal_moves R (position b))) PInf)"
        using "1.IH"(2) [OF False mn _ "1.prems"(1)] by simp
      then show ?thesis
        using False mn "1.prems"(1) by (simp add: full_minimax_node min_inv_fail_soft)
    qed
  qed
next
  case (2 R N eng b d alpha beta max_eval)
  then show ?case by (auto simp: max_inv_def)
next
  case (3 R N eng b d move moves alpha beta max_eval)
  obtain ev new1 where
    c: "minimax R N eng (push R b move) d alpha beta False =
          Inr (ev, push R b move, eng\<lparr>evaluated := evaluated eng @ new1\<rparr>)"
    using minimax_frame [of R N eng "push R b move" d alpha beta False] by blast
  let ?eng1 = "eng\<lparr>evaluated := evaluated eng @ new1\<rparr>"
  let ?v1 = "full_minimax R N (model eng) (apply_move R (position b) move) d False"
  let ?V = "foldr max (map (\<lambda>m. full_minimax R N (model eng) (apply_move R (position b) m) d False) moves) MInf"
  have fs: "fail_soft alpha beta ev ?v1"
    using "3.IH"(1) [OF "3.prems"(2) c] by simp
  show ?case
  proof (cases "beta \<le> max alpha ev")
    case True
    then have "r = max max_eval ev"
      using c "3.prems"(3) by (simp add: Let_def)
    then show ?thesis
      using max_inv_break [OF "3.prems"(1) "3.prems"(2) fs True] by simp
  next
    case False
    then have eq: "max_loop R N ?eng1 b d moves (max alpha ev) beta (max max_eval ev) = Inr (r, b', eng')"
      using c "3.prems"(3) by (simp add: Let_def)
    have le: "max max_eval ev \<le> max alpha ev"
      using "3.prems"(1) by (auto simp: max_def)
    have lt: "max alpha ev < beta"
      using False by (simp only: not_le)
    have "max_inv (max alpha ev) beta (max max_eval ev) r ?V"
      using "3.IH"(2) [OF c refl refl pop_push refl refl False le lt eq] by simp
    then show ?thesis
      using max_inv_cont [OF "3.prems"(1) "3.prems"(2) fs False] by simp
  qed
next
  case (4 R N eng b d alpha beta min_eval)
  then show ?case by (auto simp: min_inv_def)
next
  case (5 R N eng b d move moves alpha beta min_eval)
  obtain ev new1 where
    c: "minimax R N eng (push R b move) d alpha beta True =
          Inr (ev, push R b move, eng\<lparr>evaluated := evaluated eng @ new1\<rparr>)"
    using minimax_frame [of R N eng "push R b move" d alpha beta True] by blast
  let ?eng1 = "eng\<lparr>evaluated := evaluated eng @ new1\<rparr>"
  let ?v1 = "full_minimax R N (model eng) (apply_move R (position b) move) d True"
  let ?V = "foldr min (map (\<lambda>m. full_minimax R N (model eng) (apply_move R (position b) m) d True) moves) PInf"
  have fs: "fail_soft alpha beta ev ?v1"
    using "5.IH"(1) [OF "5.prems"(2) c] by simp
  show ?case
  proof (cases "min beta ev \<le> alpha")
    case True
    then have "r = min min_eval ev"
      using c "5.prems"(3) by (simp add: Let_def)
    then show ?thesis
      using min_inv_break [OF "5.prems"(1) "5.prems"(2) fs True] by simp
  next
    case False
    then have eq: "min_loop R N ?eng1 b d moves alpha (min beta ev) (min min_eval ev) = Inr (r, b', eng')"
      using c "5.prems"(3) by (simp add: Let_def)
    have le: "min beta ev \<le> min min_eval ev"
      using "5.prems"(1) by (auto simp: min_def)
    have lt: "alpha < min beta ev"
      using False by (simp only: not_le)
    have "min_inv alpha (min beta ev) (min min_eval ev) r ?V"
      using "5.IH"(2) [OF c refl refl pop_push refl refl False le lt eq] by simp
    then show ?thesis
      using min_inv_cont [OF "5.prems"(1) "5.prems"(2) fs False] by simp
  qed
qed

text \<open>
  Claim C2.  For every position, depth and role of the mover, the alpha-beta search
  started with \<open>alpha = -infinity\<close> and \<open>beta = +infinity\<close> returns, and its
  value is the value of the full minimax without pruning over the same moves with
  the same leaf evaluation.
\<close>

theorem alpha_beta_equals_full_minimax:
  "\<exists>eng'. minimax R N eng b depth MInf PInf mx =
      Inr (full_minimax R N (model eng) (position b) depth mx, b, eng')"
proof -
  obtain v new where
    c: "minimax R N eng b depth MInf PInf mx = Inr (v, b, eng\<lparr>evaluated := evaluated eng @ new\<rparr>)"
    using minimax_frame [of R N eng b depth MInf PInf mx] by blast
  have "fail_soft MInf PInf v (full_minimax R N (model eng) (position b) depth mx)"
    using minimax_value [OF _ c] by simp
  then have "v = full_minimax R N (model eng) (position b) depth mx"
    by (rule fail_soft_full)
  then show ?thesis using c by blast
qed

lemma toy_leaf_value:
  "forward toy_net w (board_to_tensor toy p) =
     (if p = 3 then 9 / 10 else if p = 4 then - (9 / 10) else if p = 5 then 1 / 10
      else if p = 6 then 2 / 10 else 0)"
  by (simp add: toy_net_def toy_forward_def board_to_tensor_nth toy_piece_at slot_index_def WHITE_def)

lemma toy_full_value: "full_minimax toy toy_net w 0 2 True = Fin (1 / 10)"
  by (simp add: full_minimax_node full_minimax_leaf toy_sel toy_leaf_value max_def min_def)

theorem alpha_beta_equals_full_minimax_witness:
  "\<exists>eng'. minimax toy toy_net toy_engine (new_board 0) 2 MInf PInf True =
      Inr (Fin (1 / 10), new_board 0, eng')"
  using alpha_beta_equals_full_minimax [of toy toy_net toy_engine "new_board 0" 2 True]
  by (simp add: toy_full_value new_board_def)

section \<open>The Move Selector: what it returns and what it leaves alone\<close>

lemma root_loop_frame:
  "\<exists>bm' bv' new. root_loop R N eng b depth ms bm bv =
       Inr ((bm', bv'), b, eng\<lparr>evaluated := evaluated eng @ new\<rparr>)
     \<and> (bm' = bm \<or> bm' \<in> Some ` set ms)"
proof (induction ms arbitrary: eng bm bv)
  case Nil
  show ?case by (auto intro: exI [of _ "[]"])
next
  case (Cons move moves)
  obtain val new1 where
    c: "minimax R N eng (push R b move) (depth - 1) MInf PInf (\<not> turn R (position (push R b move))) =
          Inr (val, push R b move, eng\<lparr>evaluated := evaluated eng @ new1\<rparr>)"
    using minimax_frame [of R N eng "push R b move" "depth - 1" MInf PInf
        "\<not> turn R (position (push R b move))"] by blast
  let ?eng1 = "eng\<lparr>evaluated := evaluated eng @ new1\<rparr>"
  let ?take = "if turn R (position b) = WHITE then bv < val else val < bv"
  have eq: "root_loop R N eng b depth (move # moves) bm bv =
      (if ?take then root_loop R N ?eng1 b depth moves (Some move) val
       else root_loop R N ?eng1 b depth moves bm bv)"
    using c by (simp add: Let_def)
  show ?case
  proof (cases ?take)
    case True
    obtain bm' bv' new2 where
      l: "root_loop R N ?eng1 b depth moves (Some move) val =
            Inr ((bm', bv'), b, ?eng1\<lparr>evaluated := evaluated ?eng1 @ new2\<rparr>)"
      and m: "bm' = Some move \<or> bm' \<in> Some ` set moves"
      using Cons.IH [of ?eng1 "Some move" val] by blast
    have "root_loop R N eng b depth (move # moves) bm bv =
        Inr ((bm', bv'), b, eng\<lparr>evaluated := evaluated eng @ (new1 @ new2)\<rparr>)"
      using eq True l by simp
    moreover have "bm' \<in> Some ` set (move # moves)"
      using m by auto
    ultimately show ?thesis by blast
  next
    case False
    obtain bm' bv' new2 where
      l: "root_loop R N ?eng1 b depth moves bm bv =
            Inr ((bm', bv'), b, ?eng1\<lparr>evaluated := evaluated ?eng1 @ new2\<rparr>)"
      and m: "bm' = bm \<or> bm' \<in> Some ` set moves"
      using Cons.IH [of ?eng1 bm bv] by blast
    have "root_loop R N eng b depth (move # moves) bm bv =
        Inr ((bm', bv'), b, eng\<lparr>evaluated := evaluated eng @ (new1 @ new2)\<rparr>)"
      using eq False l by simp
    moreover have "bm' = bm \<or> bm' \<in> Some ` set (move # moves)"
      using m by auto
    ultimately show ?thesis by blast
  qed
qed

lemma random_choice_in:
  "xs \<noteq> [] \<Longrightarrow> random_choice xs k = Inr (xs ! (k mod length xs)) \<and> xs ! (k mod length xs) \<in> set xs"
  by (simp add: random_choice_def)

lemma search_best_frame:
  assumes "legal \<noteq> []"
  shows "\<exists>m new. search_best R N eng b legal depth rnd =
           Inr (Some (uci R m), eng\<lparr>evaluated := evaluated eng @ new\<rparr>) \<and> m \<in> set legal"
proof -
  let ?bv = "if turn R (position b) = WHITE then MInf else PInf"
  obtain bm' bv' new where
    l: "root_loop R N eng b depth legal None ?bv =
          Inr ((bm', bv'), b, eng\<lparr>evaluated := evaluated eng @ new\<rparr>)"
    and m: "bm' = None \<or> bm' \<in> Some ` set legal"
    using root_loop_frame [of R N eng b depth legal None ?bv] by blast
  show ?thesis
  proof (cases "truthy R bm'")
    case True
    then obtain m' where "bm' = Some m'" "m' \<in> set legal"
      using m by (auto simp: truthy_def)
    then show ?thesis
      using l True by (auto simp: search_best_def)
  next
    case False
    then have "search_best R N eng b legal depth rnd =
        Inr (Some (uci R (legal ! (pick rnd mod length legal))), eng\<lparr>evaluated := evaluated eng @ new\<rparr>)"
      using l random_choice_in [OF assms, of "pick rnd"] by (simp add: search_best_def)
    then show ?thesis
      using random_choice_in [OF assms, of "pick rnd"] by blast
  qed
qed

lemma get_move_frame:
  assumes "parse_fen R fen_str = Some p"
  shows "(legal_moves R p = [] \<longrightarrow> get_move R N eng fen_str target_elo rnd = Inr (None, eng))
       \<and> (legal_moves R p \<noteq> [] \<longrightarrow>
           (\<exists>m new. get_move R N eng fen_str target_elo rnd =
               Inr (Some (uci R m), eng\<lparr>evaluated := evaluated eng @ new\<rparr>)
             \<and> m \<in> set (legal_moves R p)))"
proof (cases "legal_moves R p = []")
  case True
  then show ?thesis using assms by (simp add: get_move_def new_board_def)
next
  case False
  have rc: "\<exists>m new. (case random_choice (legal_moves R p) (pick rnd) of
                       Inl e \<Rightarrow> Inl e
                     | Inr m \<Rightarrow> Inr (Some (uci R m), eng)) =
               Inr (Some (uci R m), eng\<lparr>evaluated := evaluated eng @ new\<rparr>)
             \<and> m \<in> set (legal_moves R p)"
  proof -
    let ?m = "legal_moves R p ! (pick rnd mod length (legal_moves R p))"
    have "(case random_choice (legal_moves R p) (pick rnd) of
                       Inl e \<Rightarrow> Inl e
                     | Inr m \<Rightarrow> Inr (Some (uci R m), eng)) =
               Inr (Some (uci R ?m), eng\<lparr>evaluated := evaluated eng @ []\<rparr>)"
      using random_choice_in [OF False, of "pick rnd"] by simp
    moreover have "?m \<in> set (legal_moves R p)"
      using random_choice_in [OF False, of "pick rnd"] by simp
    ultimately show ?thesis by blast
  qed
  have sb: "\<exists>m new. search_best R N eng (new_board p) (legal_moves R p) d rnd =
               Inr (Some (uci R m), eng\<lparr>evaluated := evaluated eng @ new\<rparr>)
             \<and> m \<in> set (legal_moves R p)" for d
    using search_best_frame [OF False] by blast
  have "\<exists>m new. get_move R N eng fen_str target_elo rnd =
               Inr (Some (uci R m), eng\<lparr>evaluated := evaluated eng @ new\<rparr>)
             \<and> m \<in> set (legal_moves R p)"
    using assms False rc sb [of 1] sb [of 2] sb [of 3]
    by (simp add: get_move_def new_board_def Let_def)
  then show ?thesis using False by simp
qed

lemma toy_engine_sel:
  "model toy_engine = 0" "disk toy_engine = None" "writable toy_engine = True"
  "evaluated toy_engine = []" "trained toy_engine = []"
  by (simp_all add: toy_engine_def)

lemma toy_minimax_root:
  "minimax toy toy_net toy_engine (new_board 0) 2 MInf PInf True =
     Inr (Fin (1 / 10), new_board 0,
          toy_engine\<lparr>evaluated :=
            [\<lparr>position = 5, stack = [(5, 2), (2, 0)]\<rparr>,
             \<lparr>position = 6, stack = [(6, 2), (2, 0)]\<rparr>,
             \<lparr>position = 4, stack = [(4, 1), (1, 0)]\<rparr>]\<rparr>)"
  by (simp add: minimax.simps evaluate_def toy_sel toy_leaf_value toy_engine_def new_board_def
      push_def pop_def max_def min_def less_ext_def)

text \<open>
  Claim C4.  At depth 0, and at any depth on a position where the game is over, the
  search returns the network's output on the encoded position, for all bounds, and
  makes that one evaluation.  In any call, every board the evaluator is called on is a
  finished game or lies exactly \<open>depth\<close> plies below the board of the call (where
  the remaining depth is 0): a node that is neither is never evaluated.
\<close>

theorem evaluation_only_at_leaves:
  "(depth = 0 \<or> is_game_over R (position b) \<longrightarrow>
      minimax R N eng b depth alpha beta mx =
        Inr (Fin (forward N (model eng) (board_to_tensor R (position b))), b,
             eng\<lparr>evaluated := evaluated eng @ [b]\<rparr>))
   \<and> (\<exists>v new. minimax R N eng b depth alpha beta mx =
          Inr (v, b, eng\<lparr>evaluated := evaluated eng @ new\<rparr>)
        \<and> (\<forall>x \<in> set new. is_game_over R (position x)
               \<or> length (stack x) = length (stack b) + depth)
        \<and> (depth \<noteq> 0 \<and> \<not> is_game_over R (position b) \<longrightarrow> b \<notin> set new))"
proof -
  have leaf: "depth = 0 \<or> is_game_over R (position b) \<longrightarrow>
      minimax R N eng b depth alpha beta mx =
        Inr (Fin (forward N (model eng) (board_to_tensor R (position b))), b,
             eng\<lparr>evaluated := evaluated eng @ [b]\<rparr>)"
    by (simp add: minimax.simps evaluate_def)
  obtain v new where
    c: "minimax R N eng b depth alpha beta mx = Inr (v, b, eng\<lparr>evaluated := evaluated eng @ new\<rparr>)"
    and n: "\<forall>x \<in> set new. is_game_over R (position x) \<or> length (stack x) = length (stack b) + depth"
    using minimax_frame [of R N eng b depth alpha beta mx] by blast
  have "depth \<noteq> 0 \<and> \<not> is_game_over R (position b) \<longrightarrow> b \<notin> set new"
    using n by auto
  then show ?thesis using leaf c n by blast
qed

theorem evaluation_only_at_leaves_witness:
  "minimax toy toy_net toy_engine (new_board 3) 2 MInf PInf True =
     Inr (Fin (9 / 10), new_board 3, toy_engine\<lparr>evaluated := [new_board 3]\<rparr>)
   \<and> (\<exists>v new. minimax toy toy_net toy_engine (new_board 0) 2 MInf PInf True =
          Inr (v, new_board 0, toy_engine\<lparr>evaluated := new\<rparr>)
        \<and> new_board 0 \<notin> set new)"
proof -
  have "is_game_over toy (position (new_board 3 :: (nat, nat) board))"
    by (simp add: toy_sel new_board_def)
  then have 1: "minimax toy toy_net toy_engine (new_board 3) 2 MInf PInf True =
     Inr (Fin (9 / 10), new_board 3, toy_engine\<lparr>evaluated := [new_board 3]\<rparr>)"
    using evaluation_only_at_leaves [of 2 toy "new_board 3" toy_net toy_engine MInf PInf True]
    by (simp add: toy_leaf_value new_board_def toy_engine_sel)
  have "(2::nat) \<noteq> 0 \<and> \<not> is_game_over toy (position (new_board 0 :: (nat, nat) board))"
    by (simp add: toy_sel new_board_def)
  then have 2: "\<exists>v new. minimax toy toy_net toy_engine (new_board 0) 2 MInf PInf True =
          Inr (v, new_board 0, toy_engine\<lparr>evaluated := new\<rparr>)
        \<and> new_board 0 \<notin> set new"
    using evaluation_only_at_leaves [of 2 toy "new_board 0" toy_net toy_engine MInf PInf True]
    by (auto simp: toy_engine_sel)
  show ?thesis using 1 2 by blast
qed

text \<open>
  Claim C9.  For every position, depth and bounds, \<open>minimax\<close> returns, and the board
  it hands back is the board it was given; the same holds for each of its two loops
  from any point on (so every move pushed is popped before the next sibling is tried,
  and before the return at a cutoff) and for the root loop of \<open>get_move\<close>.
\<close>

theorem search_restores_board:
  "(\<exists>v eng'. minimax R N eng b depth alpha beta mx = Inr (v, b, eng'))
   \<and> (\<exists>v eng'. max_loop R N eng b d ms alpha beta acc = Inr (v, b, eng'))
   \<and> (\<exists>v eng'. min_loop R N eng b d ms alpha beta acc = Inr (v, b, eng'))
   \<and> (\<exists>r eng'. root_loop R N eng b depth ms best_move best_val = Inr (r, b, eng'))"
proof -
  have 1: "\<exists>v eng'. minimax R N eng b depth alpha beta mx = Inr (v, b, eng')"
    using minimax_frame [of R N eng b depth alpha beta mx] by blast
  have 2: "\<exists>v eng'. max_loop R N eng b d ms alpha beta acc = Inr (v, b, eng')"
    using max_loop_frame [of R N eng b d ms alpha beta acc] by blast
  have 3: "\<exists>v eng'. min_loop R N eng b d ms alpha beta acc = Inr (v, b, eng')"
    using min_loop_frame [of R N eng b d ms alpha beta acc] by blast
  have 4: "\<exists>r eng'. root_loop R N eng b depth ms best_move best_val = Inr (r, b, eng')"
    using root_loop_frame [of R N eng b depth ms best_move best_val] by blast
  show ?thesis using 1 2 3 4 by blast
qed

theorem search_restores_board_witness:
  "\<exists>v eng'. minimax toy toy_net toy_engine \<lparr>position = 0, stack = []\<rparr> 2 MInf PInf True =
      Inr (v, \<lparr>position = 0, stack = []\<rparr>, eng')
    \<and> \<lparr>position = 3, stack = [(3, 1), (1, 0)]\<rparr> \<notin> set (evaluated eng')"
proof -
  have "\<exists>v eng'. minimax toy toy_net toy_engine \<lparr>position = 0, stack = []\<rparr> 2 MInf PInf True =
      Inr (v, \<lparr>position = 0, stack = []\<rparr>, eng')"
    using search_restores_board [of toy toy_net toy_engine "\<lparr>position = 0, stack = []\<rparr>" 2 MInf PInf True]
    by blast
  then show ?thesis
    using toy_minimax_root by (auto simp: new_board_def)
qed

text \<open>
  Claim C10.  A move request never changes the Model State: when \<open>get_move\<close>
  returns, the network state, the training trace (no training step was made), the
  stored file and its writability are those of the engine it was called on, so every
  board evaluates after the request to what it evaluated to before; when it raises, it
  is because the FEN did not parse, before anything was run.
\<close>

theorem get_move_keeps_model:
  "(case get_move R N eng fen_str target_elo rnd of
      Inl e \<Rightarrow> parse_fen R fen_str = None
    | Inr (mv, eng') \<Rightarrow>
        model eng' = model eng \<and> trained eng' = trained eng
        \<and> disk eng' = disk eng \<and> writable eng' = writable eng
        \<and> (\<forall>b. fst (evaluate R N eng' b) = fst (evaluate R N eng b)))"
proof (cases "parse_fen R fen_str")
  case None
  then show ?thesis by (simp add: get_move_def)
next
  case (Some p)
  show ?thesis
  proof (cases "legal_moves R p = []")
    case True
    then show ?thesis using get_move_frame [OF Some, of N eng target_elo rnd] by simp
  next
    case False
    then obtain m new where
      "get_move R N eng fen_str target_elo rnd =
         Inr (Some (uci R m), eng\<lparr>evaluated := evaluated eng @ new\<rparr>)"
      using get_move_frame [OF Some, of N eng target_elo rnd] by blast
    then show ?thesis by (simp add: evaluate_def)
  qed
qed

lemma toy_get_move_2000:
  "get_move toy toy_net toy_engine [] 2000 rnd =
     Inr (Some ''m'', toy_engine\<lparr>evaluated :=
            [\<lparr>position = 5, stack = [(5, 2), (2, 0)]\<rparr>,
             \<lparr>position = 6, stack = [(6, 2), (2, 0)]\<rparr>,
             \<lparr>position = 4, stack = [(4, 1), (1, 0)]\<rparr>,
             \<lparr>position = 3, stack = [(3, 1), (1, 0)]\<rparr>]\<rparr>)"
  by (simp add: get_move_def search_best_def truthy_def WHITE_def minimax.simps evaluate_def
      toy_sel toy_leaf_value toy_engine_def new_board_def push_def pop_def max_def min_def
      less_ext_def Let_def)

theorem get_move_keeps_model_witness:
  "\<exists>mv eng'. get_move toy toy_net toy_engine [] 2000 \<lparr>roll = 0, pick = 0\<rparr> = Inr (mv, eng')
     \<and> model eng' = 0 \<and> trained eng' = []"
  using get_move_keeps_model [where R = toy and N = toy_net and eng = toy_engine
      and fen_str = "[]" and target_elo = 2000 and rnd = "\<lparr>roll = 0, pick = 0\<rparr>"]
  by (simp add: toy_get_move_2000 toy_engine_sel)

section \<open>The depth of the search\<close>

lemma within_plies_self:
  "depth = 0 \<or> is_game_over R (position b) \<Longrightarrow> within_plies R b 0 depth b"
  by (auto simp: within_plies_def)

lemma minimax_plies:
  "\<exists>v new. minimax R N eng b depth alpha beta mx = Inr (v, b, eng\<lparr>evaluated := evaluated eng @ new\<rparr>)
      \<and> (\<forall>x \<in> set new. within_plies R b 0 depth x) \<and> (no_dead_end R \<longrightarrow> new \<noteq> [])"
  and max_loop_plies:
    "\<exists>v new. max_loop R N eng b d ms alpha beta acc = Inr (v, b, eng\<lparr>evaluated := evaluated eng @ new\<rparr>)
      \<and> (\<forall>x \<in> set new. within_plies R b 1 (Suc d) x) \<and> (no_dead_end R \<and> ms \<noteq> [] \<longrightarrow> new \<noteq> [])"
  and min_loop_plies:
    "\<exists>v new. min_loop R N eng b d ms alpha beta acc = Inr (v, b, eng\<lparr>evaluated := evaluated eng @ new\<rparr>)
      \<and> (\<forall>x \<in> set new. within_plies R b 1 (Suc d) x) \<and> (no_dead_end R \<and> ms \<noteq> [] \<longrightarrow> new \<noteq> [])"
proof (induction R N eng b depth alpha beta mx and R N eng b d ms alpha beta acc
         and R N eng b d ms alpha beta acc rule: minimax_max_loop_min_loop.induct)
  case (1 R N eng b depth alpha beta maximizing_player)
  show ?case
  proof (cases "depth = 0 \<or> is_game_over R (position b)")
    case True
    then have "minimax R N eng b depth alpha beta maximizing_player =
        Inr (Fin (forward N (model eng) (board_to_tensor R (position b))), b,
             eng\<lparr>evaluated := evaluated eng @ [b]\<rparr>)"
      by (simp add: minimax.simps evaluate_def)
    moreover have "\<forall>x \<in> set [b]. within_plies R b 0 depth x"
      using within_plies_self [OF True] by simp
    ultimately show ?thesis by blast
  next
    case False
    then have nd: "no_dead_end R \<longrightarrow> legal_moves R (position b) \<noteq> []"
      by (simp add: no_dead_end_def)
    show ?thesis
    proof (cases maximizing_player)
      case True
      then have eq: "minimax R N eng b depth alpha beta maximizing_player =
          max_loop R N eng b (depth - 1) (legal_moves R (position b)) alpha beta MInf"
        using False by (simp add: minimax.simps)
      obtain v new where
        l: "max_loop R N eng b (depth - 1) (legal_moves R (position b)) alpha beta MInf =
              Inr (v, b, eng\<lparr>evaluated := evaluated eng @ new\<rparr>)"
        and w: "\<forall>x \<in> set new. within_plies R b 1 (Suc (depth - 1)) x"
        and n: "no_dead_end R \<and> legal_moves R (position b) \<noteq> [] \<longrightarrow> new \<noteq> []"
        using "1.IH"(1) [OF False True] by blast
      have "\<forall>x \<in> set new. within_plies R b 0 depth x"
        using w False by (fastforce simp: within_plies_def)
      moreover have "no_dead_end R \<longrightarrow> new \<noteq> []"
        using n nd by blast
      ultimately show ?thesis using eq l by auto
    next
      case mn: False
      then have eq: "minimax R N eng b depth alpha beta maximizing_player =
          min_loop R N eng b (depth - 1) (legal_moves R (position b)) alpha beta PInf"
        using False by (simp add: minimax.simps)
      obtain v new where
        l: "min_loop R N eng b (depth - 1) (legal_moves R (position b)) alpha beta PInf =
              Inr (v, b, eng\<lparr>evaluated := evaluated eng @ new\<rparr>)"
        and w: "\<forall>x \<in> set new. within_plies R b 1 (Suc (depth - 1)) x"
        and n: "no_dead_end R \<and> legal_moves R (position b) \<noteq> [] \<longrightarrow> new \<noteq> []"
        using "1.IH"(2) [OF False mn] by blast
      have "\<forall>x \<in> set new. within_plies R b 0 depth x"
        using w False by (fastforce simp: within_plies_def)
      moreover have "no_dead_end R \<longrightarrow> new \<noteq> []"
        using n nd by blast
      ultimately show ?thesis using eq l by auto
    qed
  qed
next
  case (2 R N eng b d alpha beta max_eval)
  show ?case by (auto intro: exI [of _ "[]"])
next
  case (3 R N eng b d move moves alpha beta max_eval)
  obtain ev new1 where
    c: "minimax R N eng (push R b move) d alpha beta False =
          Inr (ev, push R b move, eng\<lparr>evaluated := evaluated eng @ new1\<rparr>)"
    and w0: "\<forall>x \<in> set new1. within_plies R (push R b move) 0 d x"
    and n1: "no_dead_end R \<longrightarrow> new1 \<noteq> []"
    using "3.IH"(1) by blast
  have w1: "\<forall>x \<in> set new1. within_plies R b 1 (Suc d) x"
    using w0 by (simp add: within_plies_def)
  let ?eng1 = "eng\<lparr>evaluated := evaluated eng @ new1\<rparr>"
  show ?case
  proof (cases "beta \<le> max alpha ev")
    case True
    then have "max_loop R N eng b d (move # moves) alpha beta max_eval = Inr (max max_eval ev, b, ?eng1)"
      using c by (simp add: Let_def)
    then show ?thesis using w1 n1 by blast
  next
    case False
    then have eq: "max_loop R N eng b d (move # moves) alpha beta max_eval =
        max_loop R N ?eng1 b d moves (max alpha ev) beta (max max_eval ev)"
      using c by (simp add: Let_def)
    obtain v new2 where
      l: "max_loop R N ?eng1 b d moves (max alpha ev) beta (max max_eval ev) =
            Inr (v, b, ?eng1\<lparr>evaluated := evaluated ?eng1 @ new2\<rparr>)"
      and w2: "\<forall>x \<in> set new2. within_plies R b 1 (Suc d) x"
      using "3.IH"(2) [OF c refl refl pop_push refl refl False] by blast
    have "max_loop R N eng b d (move # moves) alpha beta max_eval =
        Inr (v, b, eng\<lparr>evaluated := evaluated eng @ (new1 @ new2)\<rparr>)"
      using eq l by simp
    moreover have "\<forall>x \<in> set (new1 @ new2). within_plies R b 1 (Suc d) x"
      using w1 w2 by auto
    moreover have "no_dead_end R \<longrightarrow> new1 @ new2 \<noteq> []"
      using n1 by simp
    ultimately show ?thesis by blast
  qed
next
  case (4 R N eng b d alpha beta min_eval)
  show ?case by (auto intro: exI [of _ "[]"])
next
  case (5 R N eng b d move moves alpha beta min_eval)
  obtain ev new1 where
    c: "minimax R N eng (push R b move) d alpha beta True =
          Inr (ev, push R b move, eng\<lparr>evaluated := evaluated eng @ new1\<rparr>)"
    and w0: "\<forall>x \<in> set new1. within_plies R (push R b move) 0 d x"
    and n1: "no_dead_end R \<longrightarrow> new1 \<noteq> []"
    using "5.IH"(1) by blast
  have w1: "\<forall>x \<in> set new1. within_plies R b 1 (Suc d) x"
    using w0 by (simp add: within_plies_def)
  let ?eng1 = "eng\<lparr>evaluated := evaluated eng @ new1\<rparr>"
  show ?case
  proof (cases "min beta ev \<le> alpha")
    case True
    then have "min_loop R N eng b d (move # moves) alpha beta min_eval = Inr (min min_eval ev, b, ?eng1)"
      using c by (simp add: Let_def)
    then show ?thesis using w1 n1 by blast
  next
    case False
    then have eq: "min_loop R N eng b d (move # moves) alpha beta min_eval =
        min_loop R N ?eng1 b d moves alpha (min beta ev) (min min_eval ev)"
      using c by (simp add: Let_def)
    obtain v new2 where
      l: "min_loop R N ?eng1 b d moves alpha (min beta ev) (min min_eval ev) =
            Inr (v, b, ?eng1\<lparr>evaluated := evaluated ?eng1 @ new2\<rparr>)"
      and w2: "\<forall>x \<in> set new2. within_plies R b 1 (Suc d) x"
      using "5.IH"(2) [OF c refl refl pop_push refl refl False] by blast
    have "min_loop R N eng b d (move # moves) alpha beta min_eval =
        Inr (v, b, eng\<lparr>evaluated := evaluated eng @ (new1 @ new2)\<rparr>)"
      using eq l by simp
    moreover have "\<forall>x \<in> set (new1 @ new2). within_plies R b 1 (Suc d) x"
      using w1 w2 by auto
    moreover have "no_dead_end R \<longrightarrow> new1 @ new2 \<noteq> []"
      using n1 by simp
    ultimately show ?thesis by blast
  qed
qed

lemma minimax_full_window:
  "\<exists>new. minimax R N eng b depth MInf PInf mx =
      Inr (full_minimax R N (model eng) (position b) depth mx, b,
           eng\<lparr>evaluated := evaluated eng @ new\<rparr>)
    \<and> (\<forall>x \<in> set new. within_plies R b 0 depth x) \<and> (no_dead_end R \<longrightarrow> new \<noteq> [])"
proof -
  obtain v new where
    c: "minimax R N eng b depth MInf PInf mx = Inr (v, b, eng\<lparr>evaluated := evaluated eng @ new\<rparr>)"
    and w: "\<forall>x \<in> set new. within_plies R b 0 depth x"
    and n: "no_dead_end R \<longrightarrow> new \<noteq> []"
    using minimax_plies [of R N eng b depth MInf PInf mx] by blast
  have "fail_soft MInf PInf v (full_minimax R N (model eng) (position b) depth mx)"
    using minimax_value [OF _ c] by simp
  then have "v = full_minimax R N (model eng) (position b) depth mx"
    by (rule fail_soft_full)
  then show ?thesis using c w n by blast
qed

lemma root_loop_search:
  assumes "depth \<noteq> 0"
  shows "\<exists>new. root_loop R N eng b depth ms bm bv =
       Inr (root_choice (turn R (position b) = WHITE)
              (map (\<lambda>m. (m, full_minimax R N (model eng) (apply_move R (position b) m) (depth - 1)
                               (\<not> turn R (apply_move R (position b) m)))) ms) bm bv,
            b, eng\<lparr>evaluated := evaluated eng @ new\<rparr>)
     \<and> (\<forall>x \<in> set new. within_plies R b 1 depth x)
     \<and> (no_dead_end R \<longrightarrow> length ms \<le> length new)"
proof (induction ms arbitrary: eng bm bv)
  case Nil
  show ?case by (auto intro: exI [of _ "[]"])
next
  case (Cons move moves)
  let ?score = "\<lambda>m. (m, full_minimax R N (model eng) (apply_move R (position b) m) (depth - 1)
                               (\<not> turn R (apply_move R (position b) m)))"
  let ?val = "full_minimax R N (model eng) (apply_move R (position b) move) (depth - 1)
                (\<not> turn R (apply_move R (position b) move))"
  obtain new1 where
    c: "minimax R N eng (push R b move) (depth - 1) MInf PInf (\<not> turn R (position (push R b move))) =
          Inr (?val, push R b move, eng\<lparr>evaluated := evaluated eng @ new1\<rparr>)"
    and w0: "\<forall>x \<in> set new1. within_plies R (push R b move) 0 (depth - 1) x"
    and n1: "no_dead_end R \<longrightarrow> new1 \<noteq> []"
    using minimax_full_window [of R N eng "push R b move" "depth - 1"
        "\<not> turn R (position (push R b move))"] by auto
  have w1: "\<forall>x \<in> set new1. within_plies R b 1 depth x"
    using w0 assms by (fastforce simp: within_plies_def)
  let ?eng1 = "eng\<lparr>evaluated := evaluated eng @ new1\<rparr>"
  let ?white = "turn R (position b) = WHITE"
  define take where "take = (if ?white then bv < ?val else ?val < bv)"
  have eq: "root_loop R N eng b depth (move # moves) bm bv =
      (if take then root_loop R N ?eng1 b depth moves (Some move) ?val
       else root_loop R N ?eng1 b depth moves bm bv)"
    using c by (simp add: Let_def take_def)
  have rc: "root_choice ?white (map ?score (move # moves)) bm bv =
      (if take then root_choice ?white (map ?score moves) (Some move) ?val
       else root_choice ?white (map ?score moves) bm bv)"
    by (simp add: take_def)
  define bm1 where "bm1 = (if take then Some move else bm)"
  define bv1 where "bv1 = (if take then ?val else bv)"
  have e1: "root_loop R N eng b depth (move # moves) bm bv =
      root_loop R N ?eng1 b depth moves bm1 bv1"
    unfolding eq bm1_def bv1_def by (cases take) simp_all
  have e2: "root_choice ?white (map ?score (move # moves)) bm bv =
      root_choice ?white (map ?score moves) bm1 bv1"
    unfolding rc bm1_def bv1_def by (cases take) simp_all
  obtain new2 where
    l: "root_loop R N ?eng1 b depth moves bm1 bv1 =
          Inr (root_choice ?white (map ?score moves) bm1 bv1, b,
               ?eng1\<lparr>evaluated := evaluated ?eng1 @ new2\<rparr>)"
    and w2: "\<forall>x \<in> set new2. within_plies R b 1 depth x"
    and n2: "no_dead_end R \<longrightarrow> length moves \<le> length new2"
    using Cons.IH [of ?eng1 bm1 bv1] by auto
  have "root_loop R N eng b depth (move # moves) bm bv =
      Inr (root_choice ?white (map ?score (move # moves)) bm bv, b,
           eng\<lparr>evaluated := evaluated eng @ (new1 @ new2)\<rparr>)"
    unfolding e1 e2 l by simp
  moreover have "\<forall>x \<in> set (new1 @ new2). within_plies R b 1 depth x"
    using w1 w2 by auto
  moreover have "no_dead_end R \<longrightarrow> length (move # moves) \<le> length (new1 @ new2)"
    using n1 n2 by (cases new1) auto
  ultimately show ?case by blast
qed

lemma root_choice_mem:
  "fst (root_choice white scores bm bv) = bm
   \<or> (\<exists>m \<in> set (map fst scores). fst (root_choice white scores bm bv) = Some m)"
proof (induction scores arbitrary: bm bv)
  case Nil
  show ?case by simp
next
  case (Cons s scores)
  obtain m v where s: "s = (m, v)" by (cases s)
  define take where "take = (if white then bv < v else v < bv)"
  have eq: "root_choice white (s # scores) bm bv =
      (if take then root_choice white scores (Some m) v else root_choice white scores bm bv)"
    by (simp add: s take_def)
  show ?case
  proof (cases take)
    case True
    then have "root_choice white (s # scores) bm bv = root_choice white scores (Some m) v"
      by (simp only: eq if_True)
    then show ?thesis
      unfolding \<open>root_choice white (s # scores) bm bv = root_choice white scores (Some m) v\<close>
      using Cons [of "Some m" v] by (auto simp: s)
  next
    case False
    then have "root_choice white (s # scores) bm bv = root_choice white scores bm bv"
      by (simp only: eq if_False)
    then show ?thesis
      unfolding \<open>root_choice white (s # scores) bm bv = root_choice white scores bm bv\<close>
      using Cons [of bm bv] by (auto simp: s)
  qed
qed

lemma search_best_search:
  assumes "depth \<noteq> 0" and "legal \<noteq> []"
  shows "\<exists>m new. search_best R N eng b legal depth rnd =
           Inr (Some (uci R m), eng\<lparr>evaluated := evaluated eng @ new\<rparr>)
     \<and> m \<in> set legal
     \<and> (\<forall>x \<in> set new. within_plies R b 1 depth x)
     \<and> (no_dead_end R \<longrightarrow> length legal \<le> length new)
     \<and> (case root_choice (turn R (position b) = WHITE)
               (map (\<lambda>c. (c, full_minimax R N (model eng) (apply_move R (position b) c) (depth - 1)
                                (\<not> turn R (apply_move R (position b) c)))) legal)
               None (if turn R (position b) = WHITE then MInf else PInf) of
           (bm, bv) \<Rightarrow> if truthy R bm then bm = Some m
                       else m = legal ! (pick rnd mod length legal))"
proof -
  let ?bv0 = "if turn R (position b) = WHITE then MInf else PInf"
  let ?scores = "map (\<lambda>c. (c, full_minimax R N (model eng) (apply_move R (position b) c) (depth - 1)
                                (\<not> turn R (apply_move R (position b) c)))) legal"
  let ?rc = "root_choice (turn R (position b) = WHITE) ?scores None ?bv0"
  obtain bm bv where rc: "?rc = (bm, bv)" by (cases ?rc)
  obtain new where
    l: "root_loop R N eng b depth legal None ?bv0 =
          Inr ((bm, bv), b, eng\<lparr>evaluated := evaluated eng @ new\<rparr>)"
    and w: "\<forall>x \<in> set new. within_plies R b 1 depth x"
    and n: "no_dead_end R \<longrightarrow> length legal \<le> length new"
    using root_loop_search [OF assms(1), of R N eng b legal None ?bv0] rc by auto
  have mem: "bm = None \<or> (\<exists>m \<in> set legal. bm = Some m)"
    using root_choice_mem [of "turn R (position b) = WHITE" ?scores None ?bv0] rc
    by (auto simp: comp_def)
  show ?thesis
  proof (cases "truthy R bm")
    case True
    then obtain m where m: "bm = Some m" "m \<in> set legal"
      using mem by (auto simp: truthy_def)
    have sb: "search_best R N eng b legal depth rnd =
        Inr (Some (uci R m), eng\<lparr>evaluated := evaluated eng @ new\<rparr>)"
      using l True m by (simp add: search_best_def)
    have ch: "case ?rc of (bm, bv) \<Rightarrow> if truthy R bm then bm = Some m
                       else m = legal ! (pick rnd mod length legal)"
      using rc True m by simp
    show ?thesis
    proof (intro exI conjI)
      show "search_best R N eng b legal depth rnd =
        Inr (Some (uci R m), eng\<lparr>evaluated := evaluated eng @ new\<rparr>)" by (fact sb)
      show "m \<in> set legal" by (fact m(2))
      show "\<forall>x \<in> set new. within_plies R b 1 depth x" by (fact w)
      show "no_dead_end R \<longrightarrow> length legal \<le> length new" by (fact n)
      show "case ?rc of (bm, bv) \<Rightarrow> if truthy R bm then bm = Some m
                       else m = legal ! (pick rnd mod length legal)" by (fact ch)
    qed
  next
    case False
    let ?m = "legal ! (pick rnd mod length legal)"
    have sb: "search_best R N eng b legal depth rnd =
        Inr (Some (uci R ?m), eng\<lparr>evaluated := evaluated eng @ new\<rparr>)"
      using l False random_choice_in [OF assms(2), of "pick rnd"] by (simp add: search_best_def)
    have mm: "?m \<in> set legal"
      using random_choice_in [OF assms(2), of "pick rnd"] by simp
    have ch: "case ?rc of (bm, bv) \<Rightarrow> if truthy R bm then bm = Some ?m
                       else ?m = legal ! (pick rnd mod length legal)"
      using rc False by simp
    show ?thesis
    proof (intro exI conjI)
      show "search_best R N eng b legal depth rnd =
        Inr (Some (uci R ?m), eng\<lparr>evaluated := evaluated eng @ new\<rparr>)" by (fact sb)
      show "?m \<in> set legal" by (fact mm)
      show "\<forall>x \<in> set new. within_plies R b 1 depth x" by (fact w)
      show "no_dead_end R \<longrightarrow> length legal \<le> length new" by (fact n)
      show "case ?rc of (bm, bv) \<Rightarrow> if truthy R bm then bm = Some ?m
                       else ?m = legal ! (pick rnd mod length legal)" by (fact ch)
    qed
  qed
qed

lemma tier_depth: "snd (tier r) \<noteq> 0"
  by (simp add: tier_def)

text \<open>
  Claim C5.  For a position with legal moves and a random number \<open>roll\<close> from
  [0, 1), \<open>get_move\<close> follows the policy table: with \<open>(prob, depth) = tier r\<close>,
  that is (0.5, 1) below 1000, (0.2, 2) from 1000 to below 1800 and (0, 3) from 1800
  on, it returns the legal move drawn by \<^verbatim>\<open>random.choice\<close> when \<open>roll < prob\<close>,
  with the engine untouched (nothing was evaluated), and otherwise the answer of the
  search at that depth.  That search looks exactly \<open>depth\<close> plies ahead: every
  board it evaluates lies between 1 and \<open>depth\<close> plies below the position, and
  exactly \<open>depth\<close> plies below it unless the game is over there; it evaluates at
  least one board per legal move when the rules have no dead end; and the move it
  answers with is the root choice over the legal moves, each scored by the minimax
  value \<open>depth - 1\<close> plies deep of the position after it (with the role flag the
  root loop passes), or the move drawn by \<^verbatim>\<open>random.choice\<close> when that choice
  is empty.
\<close>

theorem get_move_tier_table:
  assumes "parse_fen R fen_str = Some p" and "legal_moves R p \<noteq> []" and "0 \<le> roll rnd"
  shows "get_move R N eng fen_str r rnd =
     (if roll rnd < fst (tier r) then
        Inr (Some (uci R (legal_moves R p ! (pick rnd mod length (legal_moves R p)))), eng)
      else search_best R N eng (new_board p) (legal_moves R p) (snd (tier r)) rnd)
   \<and> (\<not> roll rnd < fst (tier r) \<longrightarrow>
        (\<exists>m new. get_move R N eng fen_str r rnd =
            Inr (Some (uci R m), eng\<lparr>evaluated := evaluated eng @ new\<rparr>)
          \<and> m \<in> set (legal_moves R p)
          \<and> (\<forall>x \<in> set new. 1 \<le> length (stack x) \<and> length (stack x) \<le> snd (tier r)
                \<and> (is_game_over R (position x) \<or> length (stack x) = snd (tier r)))
          \<and> (no_dead_end R \<longrightarrow> length (legal_moves R p) \<le> length new)
          \<and> (case root_choice (turn R p = WHITE)
                    (map (\<lambda>c. (c, full_minimax R N (model eng) (apply_move R p c) (snd (tier r) - 1)
                                     (\<not> turn R (apply_move R p c)))) (legal_moves R p))
                    None (if turn R p = WHITE then MInf else PInf) of
                (bm, bv) \<Rightarrow> if truthy R bm then bm = Some m
                            else m = legal_moves R p ! (pick rnd mod length (legal_moves R p)))))"
proof -
  have 1: "get_move R N eng fen_str r rnd =
     (if roll rnd < fst (tier r) then
        Inr (Some (uci R (legal_moves R p ! (pick rnd mod length (legal_moves R p)))), eng)
      else search_best R N eng (new_board p) (legal_moves R p) (snd (tier r)) rnd)"
    using assms random_choice_in [OF assms(2), of "pick rnd"]
    by (simp add: get_move_def tier_def new_board_def Let_def)
  have pos: "position (new_board p :: ('a, 'b) board) = p"
    and wp: "within_plies R (new_board p) 1 d x =
      (1 \<le> length (stack x) \<and> length (stack x) \<le> d
        \<and> (is_game_over R (position x) \<or> length (stack x) = d))" for d x
    by (simp_all add: new_board_def within_plies_def)
  have 2: "\<not> roll rnd < fst (tier r) \<longrightarrow>
        (\<exists>m new. get_move R N eng fen_str r rnd =
            Inr (Some (uci R m), eng\<lparr>evaluated := evaluated eng @ new\<rparr>)
          \<and> m \<in> set (legal_moves R p)
          \<and> (\<forall>x \<in> set new. 1 \<le> length (stack x) \<and> length (stack x) \<le> snd (tier r)
                \<and> (is_game_over R (position x) \<or> length (stack x) = snd (tier r)))
          \<and> (no_dead_end R \<longrightarrow> length (legal_moves R p) \<le> length new)
          \<and> (case root_choice (turn R p = WHITE)
                    (map (\<lambda>c. (c, full_minimax R N (model eng) (apply_move R p c) (snd (tier r) - 1)
                                     (\<not> turn R (apply_move R p c)))) (legal_moves R p))
                    None (if turn R p = WHITE then MInf else PInf) of
                (bm, bv) \<Rightarrow> if truthy R bm then bm = Some m
                            else m = legal_moves R p ! (pick rnd mod length (legal_moves R p))))"
    using search_best_search [OF tier_depth assms(2), of R N eng "new_board p" r rnd] 1
    by (simp only: pos wp) auto
  show ?thesis using 1 2 by (rule conjI)
qed

lemma toy2_sel:
  "parse_fen toy2 = parse_fen toy" "legal_moves toy2 = legal_moves toy"
  "apply_move toy2 = apply_move toy" "turn toy2 = turn toy" "piece_at toy2 = piece_at toy"
  "uci toy2 = uci toy" "move_bool toy2 = move_bool toy"
  "is_game_over toy2 = (\<lambda>p. legal_moves toy p = [])"
  by (simp_all add: toy2_def)

lemma toy2_no_dead_end: "no_dead_end toy2"
  by (simp add: no_dead_end_def toy2_sel)

lemma toy2_leaf_value:
  "forward toy_net w (board_to_tensor toy2 p) =
     (if p = 3 then 9 / 10 else if p = 4 then - (9 / 10) else if p = 5 then 1 / 10
      else if p = 6 then 2 / 10 else 0)"
  by (simp add: toy_net_def toy_forward_def board_to_tensor_nth toy2_sel toy_piece_at
      slot_index_def WHITE_def)

theorem get_move_tier_table_witness:
  "get_move toy toy_net toy_engine [] 999 \<lparr>roll = 3 / 10, pick = 1\<rparr> = Inr (Some ''m'', toy_engine)
   \<and> get_move toy toy_net toy_engine [] 1000 \<lparr>roll = 3 / 10, pick = 1\<rparr> =
       search_best toy toy_net toy_engine (new_board 0) [2, 1] 2 \<lparr>roll = 3 / 10, pick = 1\<rparr>
   \<and> get_move toy toy_net toy_engine [] 1800 \<lparr>roll = 0, pick = 1\<rparr> =
       search_best toy toy_net toy_engine (new_board 0) [2, 1] 3 \<lparr>roll = 0, pick = 1\<rparr>
   \<and> (\<exists>new. get_move toy2 toy_net toy_engine [] 1000 \<lparr>roll = 3 / 10, pick = 1\<rparr> =
          Inr (Some ''m'', toy_engine\<lparr>evaluated := new\<rparr>)
        \<and> 2 \<le> length new
        \<and> (\<forall>x \<in> set new. 1 \<le> length (stack x) \<and> length (stack x) \<le> 2))"
proof -
  have p: "parse_fen toy [] = Some 0" and l: "legal_moves toy 0 \<noteq> []"
    by (simp_all add: toy_sel)
  have p2: "parse_fen toy2 [] = Some 0" and l2: "legal_moves toy2 0 \<noteq> []"
    by (simp_all add: toy2_sel toy_sel)
  have r1: "0 \<le> roll \<lparr>roll = 3 / 10, pick = 1\<rparr>" and r2: "0 \<le> roll \<lparr>roll = 0, pick = 1\<rparr>"
    by simp_all
  have a: "get_move toy toy_net toy_engine [] 999 \<lparr>roll = 3 / 10, pick = 1\<rparr> =
      Inr (Some ''m'', toy_engine)"
    using get_move_tier_table [OF p l r1, of toy_net toy_engine 999]
    by (simp add: tier_def toy_sel)
  have b: "get_move toy toy_net toy_engine [] 1000 \<lparr>roll = 3 / 10, pick = 1\<rparr> =
       search_best toy toy_net toy_engine (new_board 0) [2, 1] 2 \<lparr>roll = 3 / 10, pick = 1\<rparr>"
    using get_move_tier_table [OF p l r1, of toy_net toy_engine 1000]
    by (simp add: tier_def toy_sel)
  have c: "get_move toy toy_net toy_engine [] 1800 \<lparr>roll = 0, pick = 1\<rparr> =
       search_best toy toy_net toy_engine (new_board 0) [2, 1] 3 \<lparr>roll = 0, pick = 1\<rparr>"
    using get_move_tier_table [OF p l r2, of toy_net toy_engine 1800]
    by (simp add: tier_def toy_sel)
  have t: "fst (tier 1000) = 2 / 10" "snd (tier 1000) = 2"
    by (simp_all add: tier_def)
  have nr: "\<not> roll \<lparr>roll = 3 / 10, pick = 1\<rparr> < fst (tier 1000)"
    by (simp add: t)
  note ex = conjunct2 [OF get_move_tier_table [OF p2 l2 r1, of toy_net toy_engine 1000],
      THEN mp, OF nr]
  from ex obtain m new where
    g: "get_move toy2 toy_net toy_engine [] 1000 \<lparr>roll = 3 / 10, pick = 1\<rparr> =
          Inr (Some (uci toy2 m), toy_engine\<lparr>evaluated := evaluated toy_engine @ new\<rparr>)"
    and w: "\<forall>x \<in> set new. 1 \<le> length (stack x) \<and> length (stack x) \<le> snd (tier 1000)
                \<and> (is_game_over toy2 (position x) \<or> length (stack x) = snd (tier 1000))"
    and n: "no_dead_end toy2 \<longrightarrow> length (legal_moves toy2 0) \<le> length new"
    and ch: "case root_choice (turn toy2 0 = WHITE)
                    (map (\<lambda>c. (c, full_minimax toy2 toy_net (model toy_engine) (apply_move toy2 0 c)
                                     (snd (tier 1000) - 1) (\<not> turn toy2 (apply_move toy2 0 c))))
                       (legal_moves toy2 0))
                    None (if turn toy2 0 = WHITE then MInf else PInf) of
                (bm, bv) \<Rightarrow> if truthy toy2 bm then bm = Some m
                            else m = legal_moves toy2 0 ! (pick \<lparr>roll = 3 / 10, pick = 1\<rparr>
                                       mod length (legal_moves toy2 0))"
    by (elim exE conjE) (rule that; assumption)
  have "m = 1"
    using ch
    by (simp add: t toy2_sel toy_sel toy2_leaf_value max_def WHITE_def truthy_def less_ext_def)
  then have g': "get_move toy2 toy_net toy_engine [] 1000 \<lparr>roll = 3 / 10, pick = 1\<rparr> =
          Inr (Some ''m'', toy_engine\<lparr>evaluated := new\<rparr>)"
    using g by (simp add: toy2_sel toy_sel toy_engine_sel)
  have "2 \<le> length new"
    using n toy2_no_dead_end by (simp add: toy2_sel toy_sel)
  moreover have "\<forall>x \<in> set new. 1 \<le> length (stack x) \<and> length (stack x) \<le> 2"
    using w by (simp add: t)
  ultimately have d: "\<exists>new. get_move toy2 toy_net toy_engine [] 1000 \<lparr>roll = 3 / 10, pick = 1\<rparr> =
          Inr (Some ''m'', toy_engine\<lparr>evaluated := new\<rparr>)
        \<and> 2 \<le> length new
        \<and> (\<forall>x \<in> set new. 1 \<le> length (stack x) \<and> length (stack x) \<le> 2)"
    using g' by blast
  show ?thesis using a b c d by blast
qed

section \<open>A legal move or the empty result\<close>

text \<open>
  Claim C6.  For a FEN that parses to the position \<open>p\<close>, and every rating and random
  numbers: \<open>get_move\<close> returns the empty result exactly when \<open>p\<close> has no legal
  move; when \<open>p\<close> has legal moves it returns the text form of one of them; and when
  the root loop ends without a best move that counts as true, the search answers with
  the legal move drawn by \<^verbatim>\<open>random.choice\<close>.
\<close>

theorem get_move_legal_or_none:
  assumes "parse_fen R fen_str = Some p"
  shows "((\<exists>eng'. get_move R N eng fen_str target_elo rnd = Inr (None, eng'))
            \<longleftrightarrow> legal_moves R p = [])
       \<and> (legal_moves R p \<noteq> [] \<longrightarrow>
            (\<exists>m \<in> set (legal_moves R p). \<exists>eng'.
               get_move R N eng fen_str target_elo rnd = Inr (Some (uci R m), eng')))
       \<and> (legal_moves R p \<noteq> []
            \<and> root_loop R N eng b depth (legal_moves R p) None
                 (if turn R (position b) = WHITE then MInf else PInf) = Inr ((bm, bv), b', eng1)
            \<and> \<not> truthy R bm \<longrightarrow>
            search_best R N eng b (legal_moves R p) depth rnd =
              Inr (Some (uci R (legal_moves R p ! (pick rnd mod length (legal_moves R p)))), eng1)
            \<and> legal_moves R p ! (pick rnd mod length (legal_moves R p)) \<in> set (legal_moves R p))"
proof -
  note f = get_move_frame [OF assms, of N eng target_elo rnd]
  have 1: "(\<exists>eng'. get_move R N eng fen_str target_elo rnd = Inr (None, eng'))
            \<longleftrightarrow> legal_moves R p = []"
    using f by auto
  have 2: "legal_moves R p \<noteq> [] \<longrightarrow>
            (\<exists>m \<in> set (legal_moves R p). \<exists>eng'.
               get_move R N eng fen_str target_elo rnd = Inr (Some (uci R m), eng'))"
    using f by blast
  have 3: "legal_moves R p \<noteq> []
            \<and> root_loop R N eng b depth (legal_moves R p) None
                 (if turn R (position b) = WHITE then MInf else PInf) = Inr ((bm, bv), b', eng1)
            \<and> \<not> truthy R bm \<longrightarrow>
            search_best R N eng b (legal_moves R p) depth rnd =
              Inr (Some (uci R (legal_moves R p ! (pick rnd mod length (legal_moves R p)))), eng1)
            \<and> legal_moves R p ! (pick rnd mod length (legal_moves R p)) \<in> set (legal_moves R p)"
    using random_choice_in [of "legal_moves R p" "pick rnd"]
    by (auto simp: search_best_def)
  show ?thesis using 1 2 3 by blast
qed

lemma toy_root_loop_7:
  "root_loop toy toy_net toy_engine (new_board 7) 3 (legal_moves toy 7) None
     (if turn toy (position (new_board 7 :: (nat, nat) board)) = WHITE then MInf else PInf) =
   Inr ((None, MInf), new_board 7, toy_engine)"
  by (simp add: minimax.simps toy_sel new_board_def push_def pop_def WHITE_def less_ext_def)

theorem get_move_legal_or_none_witness:
  "parse_fen toy ''xxxxxxx'' = Some 7
   \<and> (\<exists>m \<in> set (legal_moves toy 7). \<exists>eng'.
         get_move toy toy_net toy_engine ''xxxxxxx'' 2000 \<lparr>roll = 0, pick = 5\<rparr> =
           Inr (Some (uci toy m), eng'))
   \<and> search_best toy toy_net toy_engine (new_board 7) (legal_moves toy 7) 3 \<lparr>roll = 0, pick = 5\<rparr> =
       Inr (Some ''mmmmmmmm'', toy_engine)
   \<and> (\<exists>eng'. get_move toy toy_net toy_engine ''xxx'' 2000 \<lparr>roll = 0, pick = 5\<rparr> = Inr (None, eng'))"
proof -
  have p: "parse_fen toy ''xxxxxxx'' = Some 7"
    by (simp add: toy_sel)
  have q: "parse_fen toy ''xxx'' = Some 3"
    by (simp add: toy_sel)
  have l: "legal_moves toy 7 \<noteq> []" and l3: "legal_moves toy 3 = []"
    by (simp_all add: toy_sel)
  have t: "\<not> truthy toy None"
    by (simp add: truthy_def)
  note a = get_move_legal_or_none [OF p, of toy_net toy_engine 2000 "\<lparr>roll = 0, pick = 5\<rparr>"
      "new_board 7" 3 None MInf "new_board 7" toy_engine]
  have 1: "\<exists>m \<in> set (legal_moves toy 7). \<exists>eng'.
         get_move toy toy_net toy_engine ''xxxxxxx'' 2000 \<lparr>roll = 0, pick = 5\<rparr> =
           Inr (Some (uci toy m), eng')"
    using a l by blast
  have "search_best toy toy_net toy_engine (new_board 7) (legal_moves toy 7) 3 \<lparr>roll = 0, pick = 5\<rparr> =
       Inr (Some (uci toy (legal_moves toy 7 ! (pick \<lparr>roll = 0, pick = 5\<rparr> mod length (legal_moves toy 7)))),
            toy_engine)"
    using a l t toy_root_loop_7 by blast
  then have 2: "search_best toy toy_net toy_engine (new_board 7) (legal_moves toy 7) 3 \<lparr>roll = 0, pick = 5\<rparr> =
       Inr (Some ''mmmmmmmm'', toy_engine)"
    by (simp add: toy_sel eval_nat_numeral)
  have 3: "\<exists>eng'. get_move toy toy_net toy_engine ''xxx'' 2000 \<lparr>roll = 0, pick = 5\<rparr> = Inr (None, eng')"
    using get_move_legal_or_none [OF q, of toy_net toy_engine 2000 "\<lparr>roll = 0, pick = 5\<rparr>"] l3
    by blast
  show ?thesis using p 1 2 3 by blast
qed

section \<open>The Trainer\<close>

lemma get_move_Inr_frame:
  assumes "get_move R N eng fen_str target_elo rnd = Inr (mv, eng1)"
  shows "\<exists>new. eng1 = eng\<lparr>evaluated := evaluated eng @ new\<rparr>"
proof (cases "parse_fen R fen_str")
  case None
  then show ?thesis using assms by (simp add: get_move_def)
next
  case (Some p)
  show ?thesis
  proof (cases "legal_moves R p = []")
    case True
    then have "eng1 = eng"
      using get_move_frame [OF Some, of N eng target_elo rnd] assms by simp
    then show ?thesis by (auto intro: exI [of _ "[]"])
  next
    case False
    then show ?thesis
      using get_move_frame [OF Some, of N eng target_elo rnd] assms by auto
  qed
qed

lemma train_step_fields:
  "trained (snd (train_step N eng t v)) = trained eng @ [(t, v)]"
  "model (snd (train_step N eng t v)) = snd (step N (model eng) t v)"
  by (simp_all add: train_step_def split: prod.splits)

lemma train_all_trained:
  "trained (train_all N eng h reward) = trained eng @ map (\<lambda>(tensor, side). (tensor, reward)) h"
proof (induction h arbitrary: eng)
  case Nil
  show ?case by simp
next
  case (Cons x h)
  obtain t s where x: "x = (t, s)" by (cases x)
  obtain l e where ts: "train_step N eng t reward = (l, e)" by (cases "train_step N eng t reward")
  have "train_all N eng (x # h) reward = train_all N e h reward"
    by (simp add: x ts)
  moreover have "trained e = trained eng @ [(t, reward)]"
    using train_step_fields(1) [of N eng t reward] ts by simp
  ultimately show ?case
    using Cons [of e] by (simp add: x)
qed

lemma train_all_model:
  "model (train_all N eng h reward) =
     foldl (\<lambda>w (tensor, side). snd (step N w tensor reward)) (model eng) h"
proof (induction h arbitrary: eng)
  case Nil
  show ?case by simp
next
  case (Cons x h)
  obtain t s where x: "x = (t, s)" by (cases x)
  obtain l e where ts: "train_step N eng t reward = (l, e)" by (cases "train_step N eng t reward")
  have "train_all N eng (x # h) reward = train_all N e h reward"
    by (simp add: x ts)
  moreover have "model e = snd (step N (model eng) t reward)"
    using train_step_fields(2) [of N eng t reward] ts by simp
  ultimately show ?case
    using Cons [of e] by (simp add: x)
qed

lemma save_model_fields:
  "trained (snd (save_model eng)) = trained eng" "model (snd (save_model eng)) = model eng"
  by (simp_all add: save_model_def)

lemma play_moves_history:
  assumes "play_moves R N fuel rnd i eng b h = Some (Inr (b', h'), eng')"
    and "h = map (\<lambda>(m, p). (board_to_tensor R p, turn R p)) (rev (stack b))"
  shows "h' = map (\<lambda>(m, p). (board_to_tensor R p, turn R p)) (rev (stack b'))
       \<and> is_game_over R (position b')
       \<and> trained eng' = trained eng \<and> model eng' = model eng"
  using assms
proof (induction fuel arbitrary: i eng b h)
  case 0
  then show ?case by (auto split: if_splits)
next
  case (Suc n)
  show ?case
  proof (cases "is_game_over R (position b)")
    case True
    then show ?thesis using Suc.prems by auto
  next
    case False
    let ?chosen = "(if roll (rnd i) < 0.1 then
             (case random_choice (legal_moves R (position b)) (pick (rnd i)) of
                Inl e \<Rightarrow> (Inl e, eng)
              | Inr m \<Rightarrow> (Inr m, eng))
           else
             (case get_move R N eng (fen R (position b)) 2000 (rnd i) of
                Inl e \<Rightarrow> (Inl e, eng)
              | Inr (None, eng1) \<Rightarrow> (Inl TypeError, eng1)
              | Inr (Some move_str, eng1) \<Rightarrow>
                  (case from_uci R move_str of
                     None \<Rightarrow> (Inl ValueError, eng1)
                   | Some m \<Rightarrow> (Inr m, eng1))))"
    obtain c eng1 where ch: "?chosen = (c, eng1)" by (cases ?chosen)
    have fr: "trained eng1 = trained eng \<and> model eng1 = model eng"
    proof (cases "roll (rnd i) < 0.1")
      case True
      then show ?thesis using ch by (auto split: sum.splits)
    next
      case r: False
      show ?thesis
      proof (cases "get_move R N eng (fen R (position b)) 2000 (rnd i)")
        case (Inl e)
        then show ?thesis using ch r by simp
      next
        case (Inr x)
        obtain mv e1 where x: "x = (mv, e1)" by (cases x)
        obtain new where "e1 = eng\<lparr>evaluated := evaluated eng @ new\<rparr>"
          using get_move_Inr_frame Inr x by blast
        moreover have "eng1 = e1"
          using ch r Inr x by (auto split: option.splits)
        ultimately show ?thesis by simp
      qed
    qed
    show ?thesis
    proof (cases c)
      case (Inl e)
      then show ?thesis
        using Suc.prems(1) False ch by (simp add: Let_def)
    next
      case (Inr move)
      then have rec: "play_moves R N n rnd (Suc i) eng1 (push R b move)
                 (h @ [(board_to_tensor R (position b), turn R (position b))]) = Some (Inr (b', h'), eng')"
        using Suc.prems(1) False ch by (simp add: Let_def)
      have "h @ [(board_to_tensor R (position b), turn R (position b))] =
          map (\<lambda>(m, p). (board_to_tensor R p, turn R p)) (rev (stack (push R b move)))"
        using Suc.prems(2) by (simp add: push_def)
      then show ?thesis
        using Suc.IH [OF rec] fr by simp
    qed
  qed
qed

text \<open>
  Claim C7.  When the moves of a self-play game end (the rules engine reports the game
  over at board \<open>b\<close>, with the recorded pairs \<open>game_history\<close>), the reward is 1
  for the result 1-0, -1 for 0-1 and 0 for anything else, and \<open>play_game\<close> makes
  one training step per recorded pair, in order, each with that reward as its target,
  whatever the recorded side to move; one pair was recorded per move played.
\<close>

theorem play_game_trains_every_pair:
  assumes "play_moves R N fuel rnd 0 eng (new_board (initial R)) [] =
             Some (Inr (b, game_history), eng1)"
  shows "\<exists>out eng2. play_game R N fuel rnd eng = Some (out, eng2)
     \<and> trained eng2 =
         trained eng @ map (\<lambda>(tensor, side). (tensor, reward_of (result R (position b)))) game_history
     \<and> model eng2 =
         foldl (\<lambda>w (tensor, side). snd (step N w tensor (reward_of (result R (position b)))))
           (model eng) game_history
     \<and> reward_of (result R (position b)) =
         (if result R (position b) = ''1-0'' then 1
          else if result R (position b) = ''0-1'' then - 1 else 0)
     \<and> is_game_over R (position b)
     \<and> game_history = map (\<lambda>(m, p). (board_to_tensor R p, turn R p)) (rev (stack b))"
proof -
  let ?reward = "reward_of (result R (position b))"
  let ?eng2 = "train_all N eng1 game_history ?reward"
  have h: "game_history = map (\<lambda>(m, p). (board_to_tensor R p, turn R p)) (rev (stack b))
       \<and> is_game_over R (position b)
       \<and> trained eng1 = trained eng \<and> model eng1 = model eng"
    using play_moves_history [OF assms] by (simp add: new_board_def)
  have pg: "play_game R N fuel rnd eng = Some (fst (save_model ?eng2), snd (save_model ?eng2))"
    using assms by (simp add: play_game_def Let_def)
  have t: "trained (snd (save_model ?eng2)) =
      trained eng @ map (\<lambda>(tensor, side). (tensor, ?reward)) game_history"
    using h by (simp add: save_model_fields train_all_trained)
  have m: "model (snd (save_model ?eng2)) =
      foldl (\<lambda>w (tensor, side). snd (step N w tensor ?reward)) (model eng) game_history"
    using h by (simp add: save_model_fields train_all_model)
  have r: "?reward = (if result R (position b) = ''1-0'' then 1
          else if result R (position b) = ''0-1'' then - 1 else 0)"
    by (simp add: reward_of_def)
  show ?thesis using pg t m r h by blast
qed

lemma play_moves_over:
  "is_game_over R (position b) \<Longrightarrow> play_moves R N fuel rnd i eng b h = Some (Inr (b, h), eng)"
  by (cases fuel) simp_all

lemma play_moves_explore:
  "\<not> is_game_over R (position b) \<Longrightarrow> roll (rnd i) < 0.1 \<Longrightarrow> legal_moves R (position b) \<noteq> [] \<Longrightarrow>
   play_moves R N (Suc n) rnd i eng b h =
     play_moves R N n rnd (Suc i) eng
       (push R b (legal_moves R (position b) ! (pick (rnd i) mod length (legal_moves R (position b)))))
       (h @ [(board_to_tensor R (position b), turn R (position b))])"
  by (simp add: random_choice_def Let_def)

lemma toy_play_moves:
  "play_moves toy toy_net 5 (\<lambda>i. \<lparr>roll = 0, pick = 3\<rparr>) 0 eng (new_board 0) [] =
     Some (Inr (\<lparr>position = 3, stack = [(3, 1), (1, 0)]\<rparr>,
                [(board_to_tensor toy 0, True), (board_to_tensor toy 1, False)]), eng)"
proof -
  let ?rnd = "\<lambda>i::nat. \<lparr>roll = 0, pick = 3\<rparr>"
  let ?b0 = "\<lparr>position = 0, stack = []\<rparr> :: (nat, nat) board"
  let ?b1 = "\<lparr>position = 1, stack = [(1, 0)]\<rparr> :: (nat, nat) board"
  let ?b2 = "\<lparr>position = 3, stack = [(3, 1), (1, 0)]\<rparr> :: (nat, nat) board"
  let ?h1 = "[(board_to_tensor toy 0, True)]"
  let ?h2 = "[(board_to_tensor toy 0, True), (board_to_tensor toy 1, False)]"
  have m: "(3::nat) mod Suc (Suc 0) = Suc 0"
    by (simp add: numeral_2_eq_2 [symmetric])
  have 1: "play_moves toy toy_net (Suc 4) ?rnd 0 eng ?b0 [] =
           play_moves toy toy_net 4 ?rnd (Suc 0) eng ?b1 ?h1"
    using play_moves_explore [where R = toy and b = ?b0 and rnd = ?rnd and i = 0 and n = 4
        and N = toy_net and eng = eng and h = "[]"]
    by (simp add: toy_sel push_def m del: play_moves.simps)
  have 2: "play_moves toy toy_net (Suc 3) ?rnd (Suc 0) eng ?b1 ?h1 =
           play_moves toy toy_net 3 ?rnd (Suc (Suc 0)) eng ?b2 ?h2"
    using play_moves_explore [where R = toy and b = ?b1 and rnd = ?rnd and i = "Suc 0" and n = 3
        and N = toy_net and eng = eng and h = ?h1]
    by (simp add: toy_sel push_def m del: play_moves.simps)
  have 3: "play_moves toy toy_net 3 ?rnd (Suc (Suc 0)) eng ?b2 ?h2 = Some (Inr (?b2, ?h2), eng)"
    by (rule play_moves_over) (simp add: toy_sel)
  have "play_moves toy toy_net 5 ?rnd 0 eng ?b0 [] = Some (Inr (?b2, ?h2), eng)"
    using 1 2 3 by (simp del: play_moves.simps)
  then show ?thesis by (simp add: new_board_def del: play_moves.simps)
qed

theorem play_game_trains_every_pair_witness:
  "\<exists>out eng2. play_game toy toy_net 5 (\<lambda>i. \<lparr>roll = 0, pick = 3\<rparr>) toy_engine = Some (out, eng2)
     \<and> trained eng2 = [(board_to_tensor toy 0, 1), (board_to_tensor toy 1, 1)]"
proof -
  have "play_moves toy toy_net 5 (\<lambda>i. \<lparr>roll = 0, pick = 3\<rparr>) 0 toy_engine
          (new_board (initial toy)) [] =
     Some (Inr (\<lparr>position = 3, stack = [(3, 1), (1, 0)]\<rparr>,
                [(board_to_tensor toy 0, True), (board_to_tensor toy 1, False)]), toy_engine)"
    using toy_play_moves [of toy_engine] by (simp add: toy_sel)
  from play_game_trains_every_pair [OF this] show ?thesis
    by (auto simp: toy_sel toy_engine_sel reward_of_def)
qed

section \<open>The root loop and the role of the mover\<close>

lemma toy_full_after_1: "full_minimax toy toy_net w (Suc 0) 2 False = Fin (- (9 / 10))"
  by (simp add: full_minimax_node full_minimax_leaf toy_sel toy_leaf_value max_def min_def)

lemma toy_full_after_2: "full_minimax toy toy_net w 2 2 False = Fin (1 / 10)"
  by (simp add: full_minimax_node full_minimax_leaf toy_sel toy_leaf_value max_def min_def)

text \<open>
  Claim C1, on the small game.  White is to move at position 0 and the rating asks
  for depth 3.  \<open>get_move\<close> answers with the move to position 1, whose value under
  best play by Black is -0.9, although the move to position 2 is worth 0.1: the root
  loop calls \<open>minimax\<close> with the flag \<^verbatim>\<open>not board.turn\<close> read after the push,
  so Black's replies are chosen by the maximizing branch.
\<close>

theorem get_move_search_not_best:
  "turn toy 0 = WHITE
   \<and> (\<exists>eng'. get_move toy toy_net toy_engine [] 2000 \<lparr>roll = 0, pick = 0\<rparr> =
         Inr (Some (uci toy 1), eng'))
   \<and> full_minimax toy toy_net (model toy_engine) (apply_move toy 0 1) 2 (turn toy (apply_move toy 0 1))
       = Fin (- (9 / 10))
   \<and> full_minimax toy toy_net (model toy_engine) (apply_move toy 0 2) 2 (turn toy (apply_move toy 0 2))
       = Fin (1 / 10)
   \<and> legal_moves toy 0 = [2, 1]"
  by (simp add: toy_get_move_2000 toy_full_after_1 toy_full_after_2 toy_sel WHITE_def)

section \<open>The trainer loop after an exception\<close>

lemma train_all_writable: "writable (train_all N eng h reward) = writable eng"
proof (induction h arbitrary: eng)
  case Nil
  show ?case by simp
next
  case (Cons x h)
  obtain t s where x: "x = (t, s)" by (cases x)
  obtain l e where ts: "train_step N eng t reward = (l, e)" by (cases "train_step N eng t reward")
  have "writable e = writable eng"
    using ts by (auto simp: train_step_def split: prod.splits)
  then show ?case
    using Cons [of e] by (simp add: x ts)
qed

lemma toy_play_game:
  "play_game toy toy_net 5 (\<lambda>i. \<lparr>roll = 0, pick = 3\<rparr>) eng =
     Some (save_model (train_all toy_net eng
        [(board_to_tensor toy 0, True), (board_to_tensor toy 1, False)] 1))"
  by (simp add: play_game_def toy_play_moves toy_sel reward_of_def del: train_all.simps)

text \<open>
  Claim C8, on the small game with a model file that cannot be written.  Each game
  ends in OSError at \<^verbatim>\<open>save_model\<close>; the loop prints the error and starts the
  next game at once: its trace of two iterations holds the two errors and no sleep.
  With a writable file the same two iterations sleep after each game.
\<close>

theorem loop_error_skips_cooldown:
  "(\<exists>eng'. loop toy toy_net 5 (\<lambda>k i. \<lparr>roll = 0, pick = 3\<rparr>) 0 2 (toy_engine\<lparr>writable := False\<rparr>) [] =
      Some (eng', [PrintError OSError, PrintError OSError]))
   \<and> (\<exists>eng'. loop toy toy_net 5 (\<lambda>k i. \<lparr>roll = 0, pick = 3\<rparr>) 0 2 toy_engine [] =
      Some (eng', [Sleep 1, Sleep 1]))"
  by (simp add: numeral_2_eq_2 toy_play_game save_model_def train_all_writable toy_engine_sel
      del: train_all.simps)

end
